theory Spec2Isabelle
  imports Main "HOL-Library.Sublist"
begin

section \<open>JavaScript strings\<close>

text \<open>
  A JavaScript string is a sequence of UTF-16 code units. The regular expressions of the
  plugin carry no \<^verbatim>\<open>u\<close> flag, so they work on code units too. A code unit is modelled by
  its numeric value; no arithmetic that could leave the 16-bit range is done on it. The
  em dash U+2014 of the extended sanitizer is a single code unit, which an 8-bit
  \<^typ>\<open>char\<close> could not hold.
\<close>

type_synonym jschar = nat
type_synonym jsstring = "jschar list"

definition js :: "string \<Rightarrow> jsstring" where
  "js s = map of_char s"

definition hyphen :: jschar where "hyphen = 45"
definition emDash :: jschar where "emDash = 8212"
definition slash :: jschar where "slash = 47"
definition newline :: jschar where "newline = 10"
definition dollar :: jschar where "dollar = 36"
definition lbrace :: jschar where "lbrace = 123"

text \<open>
  The class \<^verbatim>\<open>\s\<close> of a JavaScript regular expression, which is also the set that
  \<^verbatim>\<open>String.prototype.trim\<close> strips: WhiteSpace (TAB, VT, FF, SP, NBSP, ZWNBSP and the
  category Zs) and LineTerminator (LF, CR, LS, PS).
\<close>

definition isSpace :: "jschar \<Rightarrow> bool" where
  "isSpace c = (c \<in> {9, 10, 11, 12, 13, 32, 160, 5760, 8232, 8233, 8239, 8287, 12288, 65279}
                \<or> (8192 \<le> c \<and> c \<le> 8202))"

text \<open>The class \<^verbatim>\<open>\w\<close> without the unicode and ignore-case flags: \<^verbatim>\<open>[A-Za-z0-9_]\<close>.\<close>

definition isWord :: "jschar \<Rightarrow> bool" where
  "isWord c = ((65 \<le> c \<and> c \<le> 90) \<or> (97 \<le> c \<and> c \<le> 122) \<or> (48 \<le> c \<and> c \<le> 57) \<or> c = 95)"

text \<open>\<^verbatim>\<open>s.trim()\<close>, with its two halves \<^verbatim>\<open>trimStart\<close> and \<^verbatim>\<open>trimEnd\<close>.\<close>

definition trimStart :: "jsstring \<Rightarrow> jsstring" where
  "trimStart s = dropWhile isSpace s"

definition trimEnd :: "jsstring \<Rightarrow> jsstring" where
  "trimEnd s = rev (dropWhile isSpace (rev s))"

definition trim :: "jsstring \<Rightarrow> jsstring" where
  "trim s = trimEnd (trimStart s)"

text \<open>
  \<^verbatim>\<open>s.split(sep)\<close> for a separator of one code unit: the pieces between the separators,
  empty pieces kept, so the result is never the empty array.
\<close>

fun split :: "jschar \<Rightarrow> jsstring \<Rightarrow> jsstring list" where
  "split sep [] = [[]]"
| "split sep (c # cs) =
     (if c = sep then [] # split sep cs
      else (case split sep cs of
              [] \<Rightarrow> [[c]]
            | p # ps \<Rightarrow> (c # p) # ps))"

text \<open>
  \<^verbatim>\<open>StringIndexOf\<close> followed by the two \<^verbatim>\<open>substring\<close> calls of
  \<^verbatim>\<open>String.prototype.replace\<close>: the text before and the text after the first occurrence
  of \<open>pat\<close>, or \<open>None\<close> when \<open>pat\<close> does not occur.
\<close>

fun find_first :: "jsstring \<Rightarrow> jsstring \<Rightarrow> (jsstring \<times> jsstring) option" where
  "find_first pat [] = (if pat = [] then Some ([], []) else None)"
| "find_first pat (c # cs) =
     (if prefix pat (c # cs) then Some ([], drop (length pat) (c # cs))
      else map_option (\<lambda>(p, f). (c # p, f)) (find_first pat cs))"

text \<open>\<^verbatim>\<open>s.includes(pat)\<close>.\<close>

definition js_includes :: "jsstring \<Rightarrow> jsstring \<Rightarrow> bool" where
  "js_includes s pat = (find_first pat s \<noteq> None)"

text \<open>
  \<^verbatim>\<open>GetSubstitution\<close> of ECMAScript for a string pattern (no captures): in the
  replacement text \<^verbatim>\<open>$$\<close> stands for a dollar sign, \<^verbatim>\<open>$&\<close> for the matched text,
  \<^verbatim>\<open>$`\<close> for the text before the match and \<^verbatim>\<open>$'\<close> for the text after it. A dollar
  sign followed by anything else (digits included, as there is no capture) stays.
\<close>

fun getSubstitution :: "jsstring \<Rightarrow> jsstring \<Rightarrow> jsstring \<Rightarrow> jsstring \<Rightarrow> jsstring" where
  "getSubstitution matched pre fol [] = []"
| "getSubstitution matched pre fol [c] = [c]"
| "getSubstitution matched pre fol (c # d # r) =
     (if c = 36 \<and> d = 36 then 36 # getSubstitution matched pre fol r
      else if c = 36 \<and> d = 38 then matched @ getSubstitution matched pre fol r
      else if c = 36 \<and> d = 96 then pre @ getSubstitution matched pre fol r
      else if c = 36 \<and> d = 39 then fol @ getSubstitution matched pre fol r
      else c # getSubstitution matched pre fol (d # r))"

text \<open>\<^verbatim>\<open>s.replace(pat, repl)\<close> with a string pattern: only the first occurrence is replaced.\<close>

definition replace :: "jsstring \<Rightarrow> jsstring \<Rightarrow> jsstring \<Rightarrow> jsstring" where
  "replace pat repl s =
     (case find_first pat s of
        None \<Rightarrow> s
      | Some (pre, fol) \<Rightarrow> pre @ getSubstitution pat pre fol repl @ fol)"

section \<open>Filename Sanitizer\<close>

text \<open>\<^verbatim>\<open>.replace(/[^\w\s-]/g, '')\<close>: every code unit outside the class is deleted.\<close>

definition strip_min :: "jsstring \<Rightarrow> jsstring" where
  "strip_min s = filter (\<lambda>c. isWord c \<or> isSpace c \<or> c = hyphen) s"

text \<open>The same with the class \<^verbatim>\<open>[^\w\s]\<close> extended by the em dash U+2014, as the multi-URL variant has it.\<close>

definition strip_ext :: "jsstring \<Rightarrow> jsstring" where
  "strip_ext s = filter (\<lambda>c. isWord c \<or> isSpace c \<or> c = emDash) s"

text \<open>
  \<^verbatim>\<open>.replace(/\s+/g, '-')\<close>: scanning from the left, each maximal run of white space
  becomes one hyphen.
\<close>

function collapse :: "jsstring \<Rightarrow> jsstring" where
  "collapse [] = []"
| "collapse (c # cs) =
     (if isSpace c then hyphen # collapse (dropWhile isSpace cs)
      else c # collapse cs)"
  by pat_completeness auto
termination
  by (relation "measure length") (simp_all add: length_dropWhile_le less_Suc_eq_le)

text \<open>
  \<^verbatim>\<open>.replace(/\s*-\s*/g, EM)\<close>, where \<^verbatim>\<open>EM\<close> is the em dash U+2014. At a
  position the pattern matches exactly when the
  maximal run of white space that starts there is followed by a hyphen (giving back
  white space cannot help, the next unit would still be white space); the match then
  takes the white space after the hyphen as well. Where it does not match, the unit
  is copied and the scan moves on by one.
\<close>

function replaceDash :: "jsstring \<Rightarrow> jsstring" where
  "replaceDash [] = []"
| "replaceDash (c # cs) =
     (case dropWhile isSpace (c # cs) of
        [] \<Rightarrow> c # replaceDash cs
      | d # r \<Rightarrow> if d = hyphen then emDash # replaceDash (dropWhile isSpace r)
                 else c # replaceDash cs)"
  by pat_completeness auto
termination
proof (relation "measure length")
  fix c cs d r
  assume "dropWhile isSpace (c # cs) = d # r"
  then have "length (d # r) \<le> length (c # cs)"
    by (metis length_dropWhile_le)
  moreover have "length (dropWhile isSpace r) \<le> length r"
    by (rule length_dropWhile_le)
  ultimately show "(dropWhile isSpace r, c # cs) \<in> measure length"
    by simp
qed simp_all

text \<open>
  \<^verbatim>\<open>.toLowerCase()\<close>. The call receives only word characters, hyphens and em dashes
  (lemma \<open>before_lower_units\<close> below), and on those the Unicode case conversion maps
  \<^verbatim>\<open>A-Z\<close> to \<^verbatim>\<open>a-z\<close> and leaves every other unit as it is; the model does the same on
  every unit.
\<close>

definition toLowerUnit :: "jschar \<Rightarrow> jschar" where
  "toLowerUnit c = (if 65 \<le> c \<and> c \<le> 90 then c + 32 else c)"

definition toLowerCase :: "jsstring \<Rightarrow> jsstring" where
  "toLowerCase s = map toLowerUnit s"

text \<open>\<^verbatim>\<open>sanitizeFileName\<close> of the single-URL variant (minimal).\<close>

definition sanitizeFileName_min :: "jsstring \<Rightarrow> jsstring" where
  "sanitizeFileName_min fileName = collapse (trim (strip_min fileName))"

text \<open>\<^verbatim>\<open>sanitizeFileName\<close> of the multi-URL variant (extended).\<close>

definition sanitizeFileName_ext :: "jsstring \<Rightarrow> jsstring" where
  "sanitizeFileName_ext fileName =
     toLowerCase (collapse (trim (strip_ext (replaceDash fileName))))"

section \<open>Settings\<close>

datatype noteLocation = Default | Vault | Custom

record settings =
  template :: jsstring
  frontmatterKey :: jsstring
  noteLocation :: noteLocation
  customNoteLocation :: jsstring
  openNewNote :: bool

text \<open>\<^verbatim>\<open>DEFAULT_SETTINGS\<close> (the single-URL variant has no \<^verbatim>\<open>openNewNote\<close> and never reads it).\<close>

definition DEFAULT_SETTINGS :: settings where
  "DEFAULT_SETTINGS =
     \<lparr> template = js ''---\<newline>{{frontmatterKey}}: {{url}}\<newline>---\<newline>\<newline># {{title}}\<newline>\<newline>'',
       frontmatterKey = js ''url'',
       noteLocation = Default,
       customNoteLocation = [],
       openNewNote = False \<rparr>"

section \<open>Template Renderer\<close>

text \<open>
  The three chained \<^verbatim>\<open>.replace\<close> calls of \<^verbatim>\<open>processDroppedUrl\<close>, the same in both
  variants.
\<close>

definition renderTemplate :: "settings \<Rightarrow> jsstring \<Rightarrow> jsstring \<Rightarrow> jsstring" where
  "renderTemplate st url title =
     replace (js ''{{title}}'') title
       (replace (js ''{{url}}'') url
          (replace (js ''{{frontmatterKey}}'') (frontmatterKey st) (template st)))"

text \<open>
  The renderer in the words of the spec: three literal substitutions, each putting the
  value as it is in the place of the first occurrence of the placeholder.
\<close>

definition replace_literal :: "jsstring \<Rightarrow> jsstring \<Rightarrow> jsstring \<Rightarrow> jsstring" where
  "replace_literal pat repl s =
     (case find_first pat s of
        None \<Rightarrow> s
      | Some (pre, fol) \<Rightarrow> pre @ repl @ fol)"

definition spec_renderTemplate :: "settings \<Rightarrow> jsstring \<Rightarrow> jsstring \<Rightarrow> jsstring" where
  "spec_renderTemplate st url title =
     replace_literal (js ''{{title}}'') title
       (replace_literal (js ''{{url}}'') url
          (replace_literal (js ''{{frontmatterKey}}'') (frontmatterKey st) (template st)))"

text \<open>The number of places of \<open>s\<close> at which \<open>pat\<close> occurs.\<close>

fun occurrences :: "jsstring \<Rightarrow> jsstring \<Rightarrow> nat" where
  "occurrences pat [] = 0"
| "occurrences pat (c # cs) = (if prefix pat (c # cs) then 1 else 0) + occurrences pat cs"

text \<open>
  A template seen as a list of segments: literal text and the three placeholders.
  \<open>source\<close> is what the template holds for a segment, \<open>rendered\<close> what the note should
  hold for it, and \<open>fill\<close> the state in between, when only the placeholders in \<open>done\<close>
  have been replaced.
\<close>

datatype segment = Lit jsstring | KeyPh | UrlPh | TitlePh

fun source :: "segment \<Rightarrow> jsstring" where
  "source (Lit t) = t"
| "source KeyPh = js ''{{frontmatterKey}}''"
| "source UrlPh = js ''{{url}}''"
| "source TitlePh = js ''{{title}}''"

fun rendered :: "jsstring \<Rightarrow> jsstring \<Rightarrow> jsstring \<Rightarrow> segment \<Rightarrow> jsstring" where
  "rendered key url title (Lit t) = t"
| "rendered key url title KeyPh = key"
| "rendered key url title UrlPh = url"
| "rendered key url title TitlePh = title"

definition fill :: "segment set \<Rightarrow> jsstring \<Rightarrow> jsstring \<Rightarrow> jsstring \<Rightarrow> segment \<Rightarrow> jsstring" where
  "fill done key url title seg = (if seg \<in> done then rendered key url title seg else source seg)"

definition template_of :: "segment list \<Rightarrow> jsstring" where
  "template_of segs = concat (map source segs)"

text \<open>
  A plain template: no placeholder more than once, and no opening brace in the literal
  text. A plain value: no opening brace and no dollar sign.
\<close>

fun plain_segment :: "segment \<Rightarrow> bool" where
  "plain_segment (Lit t) = (lbrace \<notin> set t)"
| "plain_segment seg = True"

definition plain_template :: "segment list \<Rightarrow> bool" where
  "plain_template segs =
     (list_all plain_segment segs \<and> count_list segs KeyPh \<le> 1 \<and>
      count_list segs UrlPh \<le> 1 \<and> count_list segs TitlePh \<le> 1)"

definition plain_value :: "jsstring \<Rightarrow> bool" where
  "plain_value v = (lbrace \<notin> set v \<and> dollar \<notin> set v)"

text \<open>The default template as segments.\<close>

definition default_segments :: "segment list" where
  "default_segments =
     [Lit (js ''---\<newline>''), KeyPh, Lit (js '': ''), UrlPh, Lit (js ''\<newline>---\<newline>\<newline># ''),
      TitlePh, Lit (js ''\<newline>\<newline>'')]"

section \<open>The host: browser and application interfaces\<close>

text \<open>
  A value caught by \<^verbatim>\<open>catch (error)\<close>: an \<^verbatim>\<open>Error\<close> object with its message, or any
  other thrown value.
\<close>

datatype thrown = ErrorObj jsstring | OtherValue

text \<open>
  The built-in \<^verbatim>\<open>encodeURIComponent\<close> (the \<^verbatim>\<open>Encode\<close> operation of ECMAScript): letters,
  digits and \<^verbatim>\<open>-_.!~*'()\<close> stay; any other code point is written as the octets of its
  UTF-8 form, each as \<^verbatim>\<open>%\<close> and two upper-case hexadecimal digits. A surrogate that is
  not half of a pair makes it throw a \<^verbatim>\<open>URIError\<close> (message as in V8).
\<close>

definition uriUnreserved :: "jschar \<Rightarrow> bool" where
  "uriUnreserved c =
     ((65 \<le> c \<and> c \<le> 90) \<or> (97 \<le> c \<and> c \<le> 122) \<or> (48 \<le> c \<and> c \<le> 57) \<or>
      c \<in> {45, 95, 46, 33, 126, 42, 39, 40, 41})"

definition hexDigit :: "nat \<Rightarrow> jschar" where
  "hexDigit n = (if n < 10 then 48 + n else 55 + n)"

definition percentOctet :: "nat \<Rightarrow> jsstring" where
  "percentOctet b = [37, hexDigit (b div 16), hexDigit (b mod 16)]"

definition utf8 :: "nat \<Rightarrow> nat list" where
  "utf8 cp =
     (if cp < 128 then [cp]
      else if cp < 2048 then [192 + cp div 64, 128 + cp mod 64]
      else if cp < 65536 then [224 + cp div 4096, 128 + (cp div 64) mod 64, 128 + cp mod 64]
      else [240 + cp div 262144, 128 + (cp div 4096) mod 64, 128 + (cp div 64) mod 64,
            128 + cp mod 64])"

definition leadSurrogate :: "jschar \<Rightarrow> bool" where
  "leadSurrogate c = (55296 \<le> c \<and> c \<le> 56319)"

definition trailSurrogate :: "jschar \<Rightarrow> bool" where
  "trailSurrogate c = (56320 \<le> c \<and> c \<le> 57343)"

fun encodeURIComponent :: "jsstring \<Rightarrow> thrown + jsstring" where
  "encodeURIComponent [] = Inr []"
| "encodeURIComponent (c # cs) =
     (if uriUnreserved c then
        (case encodeURIComponent cs of Inl e \<Rightarrow> Inl e | Inr s \<Rightarrow> Inr (c # s))
      else if leadSurrogate c then
        (case cs of
           [] \<Rightarrow> Inl (ErrorObj (js ''URI malformed''))
         | d # r \<Rightarrow>
             if trailSurrogate d then
               (case encodeURIComponent r of
                  Inl e \<Rightarrow> Inl e
                | Inr s \<Rightarrow>
                    Inr (concat (map percentOctet
                           (utf8 ((c - 55296) * 1024 + (d - 56320) + 65536))) @ s))
             else Inl (ErrorObj (js ''URI malformed'')))
      else if trailSurrogate c then Inl (ErrorObj (js ''URI malformed''))
      else
        (case encodeURIComponent cs of
           Inl e \<Rightarrow> Inl e
         | Inr s \<Rightarrow> Inr (concat (map percentOctet (utf8 c)) @ s)))"

text \<open>The two fields of a parsed \<^verbatim>\<open>URL\<close> object that the plugin reads.\<close>

record urlObj =
  hostname :: jsstring
  pathname :: jsstring

text \<open>
  What the browser and the application answer to one run of the pipeline (the proxy,
  the HTML and URL parsers, the vault and the workspace). None of it is code of the
  plugin, so each answer is a parameter:
  \<^item> \<open>proxyContents\<close>: \<^verbatim>\<open>await fetch(request)\<close>, \<^verbatim>\<open>await response.json()\<close> and the
    field \<^verbatim>\<open>contents\<close> read from it, \<open>Inl\<close> when one of the three rejects or throws;
  \<^item> \<open>titleText\<close>: \<^verbatim>\<open>DOMParser.parseFromString\<close> followed by
    \<^verbatim>\<open>querySelector('title')?.textContent\<close>, \<open>None\<close> when the document has no
    \<^verbatim>\<open>title\<close> element;
  \<^item> \<open>newURL\<close>: the \<^verbatim>\<open>URL\<close> constructor, which throws on an unparseable string;
  \<^item> \<open>normalizePath\<close> and \<open>getNewFileParent\<close> (the folder's path, \<open>None\<close> for a falsy
    result) of the application;
  \<^item> \<open>vaultCreate\<close>: \<^verbatim>\<open>await vault.create(path, content)\<close>, giving the new file (its
    path; \<open>None\<close> for a falsy value) or the rejection;
  \<^item> \<open>openFile\<close>: \<^verbatim>\<open>workspace.getLeaf(true)\<close> and \<^verbatim>\<open>await leaf.openFile(file)\<close>.
\<close>

record host =
  proxyContents :: "jsstring \<Rightarrow> thrown + jsstring"
  titleText :: "jsstring \<Rightarrow> jsstring option"
  newURL :: "jsstring \<Rightarrow> thrown + urlObj"
  normalizePath :: "jsstring \<Rightarrow> jsstring"
  getNewFileParent :: "jsstring option"
  vaultCreate :: "jsstring \<Rightarrow> jsstring \<Rightarrow> thrown + jsstring option"
  openFile :: "jsstring \<Rightarrow> thrown + unit"

text \<open>What a run does to its surroundings, in the order it does it.\<close>

datatype effect =
    SetProcessingCount int
  | Fetch jsstring
  | VaultCreate jsstring jsstring
  | OpenFile jsstring
  | Notice jsstring "nat option"
  | ConsoleError jsstring thrown
  | PreventDefault
  | StopPropagation
  | SetIsDragging bool

section \<open>Title Extractor\<close>

text \<open>\<^verbatim>\<open>array.pop()\<close>: the last element, \<^verbatim>\<open>undefined\<close> on the empty array.\<close>

definition pop :: "'a list \<Rightarrow> 'a option" where
  "pop xs = (if xs = [] then None else Some (last xs))"

text \<open>\<^verbatim>\<open>urlObj.pathname.split('/').pop() || urlObj.hostname\<close>.\<close>

definition fallbackTitle :: "urlObj \<Rightarrow> jsstring" where
  "fallbackTitle u =
     (case pop (split slash (pathname u)) of
        None \<Rightarrow> hostname u
      | Some seg \<Rightarrow> if seg = [] then hostname u else seg)"

text \<open>
  Lines \<^verbatim>\<open>let title = doc.querySelector('title')?.textContent || ''\<close> to the end of
  \<^verbatim>\<open>if (!title) { ... }\<close>. The URL is parsed only when the document gave no title, and
  the constructor's exception leaves the \<^verbatim>\<open>try\<close> block.
\<close>

definition resolveTitle :: "host \<Rightarrow> jsstring \<Rightarrow> jsstring \<Rightarrow> thrown + jsstring" where
  "resolveTitle h url html =
     (let title = (case titleText h html of None \<Rightarrow> [] | Some t \<Rightarrow> t)
      in if title = []
         then (case newURL h url of
                 Inl e \<Rightarrow> Inl e
               | Inr urlObj \<Rightarrow> Inr (fallbackTitle urlObj))
         else Inr title)"

section \<open>Note Placer\<close>

text \<open>\<^verbatim>\<open>getNotePath\<close>, the same in both variants.\<close>

definition getNotePath :: "host \<Rightarrow> settings \<Rightarrow> jsstring \<Rightarrow> jsstring" where
  "getNotePath h st fileName =
     (case noteLocation st of
        Vault \<Rightarrow> fileName
      | Custom \<Rightarrow> normalizePath h (customNoteLocation st @ [slash] @ fileName)
      | Default \<Rightarrow>
          (case getNewFileParent h of
             Some parentPath \<Rightarrow> normalizePath h (parentPath @ [slash] @ fileName)
           | None \<Rightarrow> fileName))"

text \<open>
  Modelled from the spec: \<^verbatim>\<open>normalizePath\<close> belongs to the application and is not in
  the repository; the spec says of it that the result has no duplicate separators.
  This stand-in joins each run of slashes into one. It is used where a concrete host
  is needed, never in place of the parameter.
\<close>

fun normalizePath_spec :: "jsstring \<Rightarrow> jsstring" where
  "normalizePath_spec (c # d # r) =
     (if c = slash \<and> d = slash then normalizePath_spec (d # r)
      else c # normalizePath_spec (d # r))"
| "normalizePath_spec s = s"

text \<open>No two neighbouring separators.\<close>

fun no_duplicate_separators :: "jsstring \<Rightarrow> bool" where
  "no_duplicate_separators (c # d # r) =
     (\<not> (c = slash \<and> d = slash) \<and> no_duplicate_separators (d # r))"
| "no_duplicate_separators s = True"

text \<open>
  Paths that every path normalization leaves alone: not empty, made of word characters,
  hyphens, em dashes, dots and slashes only (so no backslash, no non-breaking space and
  nothing that Unicode normalization would change), no slash at either end and no two
  slashes in a row.
\<close>

definition plain_path :: "jsstring \<Rightarrow> bool" where
  "plain_path p =
     (p \<noteq> [] \<and> hd p \<noteq> slash \<and> last p \<noteq> slash \<and> no_duplicate_separators p \<and>
      list_all (\<lambda>c. isWord c \<or> c = hyphen \<or> c = emDash \<or> c = 46 \<or> c = slash) p)"

section \<open>The pipeline, single-URL variant\<close>

text \<open>The \<^verbatim>\<open>catch\<close> block of the single-URL variant.\<close>

definition onError_single :: "thrown \<Rightarrow> effect list" where
  "onError_single e =
     [ConsoleError (js ''Error processing URL:'') e,
      Notice (js ''Error processing URL. Check console for details.'') None]"

text \<open>
  \<^verbatim>\<open>processDroppedUrl\<close> of the single-URL variant: the effects of one run, given the
  host's answers.
\<close>

definition processDroppedUrl_single :: "settings \<Rightarrow> host \<Rightarrow> jsstring \<Rightarrow> effect list" where
  "processDroppedUrl_single st h url =
     (case encodeURIComponent url of
        Inl e \<Rightarrow> onError_single e
      | Inr enc \<Rightarrow>
          (let request = js ''https://api.allorigins.win/get?url='' @ enc in
           Fetch request #
           (case proxyContents h request of
              Inl e \<Rightarrow> onError_single e
            | Inr html \<Rightarrow>
                (case resolveTitle h url html of
                   Inl e \<Rightarrow> onError_single e
                 | Inr title \<Rightarrow>
                     (let fileName = sanitizeFileName_min title @ js ''.md'';
                          content = renderTemplate st url title;
                          filePath = getNotePath h st fileName
                      in VaultCreate filePath content #
                         (case vaultCreate h filePath content of
                            Inl e \<Rightarrow> onError_single e
                          | Inr newFile \<Rightarrow> [Notice (js ''Note created: '' @ filePath) None]))))))"

text \<open>
  \<^verbatim>\<open>handleDrop\<close> of the single-URL variant; \<open>payload\<close> is
  \<^verbatim>\<open>e.dataTransfer.getData('text/plain')\<close>, and \<^verbatim>\<open>if (url)\<close> is true of every
  non-empty string.
\<close>

definition handleDrop_single :: "settings \<Rightarrow> host \<Rightarrow> jsstring \<Rightarrow> effect list" where
  "handleDrop_single st h payload =
     [PreventDefault, StopPropagation, SetIsDragging False] @
     (if payload \<noteq> [] then processDroppedUrl_single st h payload else [])"

section \<open>The pipeline, multi-URL variant\<close>

text \<open>The \<^verbatim>\<open>catch\<close> block of the multi-URL variant.\<close>

definition isAlreadyExists :: "thrown \<Rightarrow> bool" where
  "isAlreadyExists e =
     (case e of
        ErrorObj message \<Rightarrow> js_includes message (js ''already exists'')
      | OtherValue \<Rightarrow> False)"

definition onError :: "jsstring \<Rightarrow> thrown \<Rightarrow> effect list" where
  "onError url e =
     (if isAlreadyExists e
      then [Notice (js ''URL: '' @ url @ js ''\<newline>Error: Note with this title already exists'')
              (Some 10000)]
      else [Notice (js ''Error processing URL. Please try again.'') None,
            ConsoleError (js ''Error processing URL:'') e])"

text \<open>The \<^verbatim>\<open>finally\<close> block.\<close>

definition onFinally :: "effect list" where
  "onFinally = [SetProcessingCount (- 1)]"

text \<open>
  \<^verbatim>\<open>processDroppedUrl\<close> of the multi-URL variant is an \<^verbatim>\<open>async\<close> function: it runs
  until an \<^verbatim>\<open>await\<close> suspends it and is resumed later, other runs in between. The
  model gives the run as its list of segments, each the effects between two
  suspensions; the first segment is what the call itself does before it returns.
  The three functions below are the code after each \<^verbatim>\<open>await\<close>, last first.
\<close>

definition afterOpen :: "host \<Rightarrow> jsstring \<Rightarrow> jsstring \<Rightarrow> jsstring \<Rightarrow> effect list list" where
  "afterOpen h url filePath newFile =
     (case openFile h newFile of
        Inl e \<Rightarrow> [onError url e @ onFinally]
      | Inr u \<Rightarrow> [Notice (js ''Note created: '' @ filePath) None # onFinally])"

definition afterCreate ::
  "settings \<Rightarrow> host \<Rightarrow> jsstring \<Rightarrow> jsstring \<Rightarrow> jsstring \<Rightarrow> effect list list" where
  "afterCreate st h url filePath content =
     (case vaultCreate h filePath content of
        Inl e \<Rightarrow> [onError url e @ onFinally]
      | Inr newFile \<Rightarrow>
          (case (if openNewNote st then newFile else None) of
             Some file \<Rightarrow> [OpenFile file] # afterOpen h url filePath file
           | None \<Rightarrow> [Notice (js ''Note created: '' @ filePath) None # onFinally]))"

definition afterFetch :: "settings \<Rightarrow> host \<Rightarrow> jsstring \<Rightarrow> jsstring \<Rightarrow> effect list list" where
  "afterFetch st h url request =
     (case proxyContents h request of
        Inl e \<Rightarrow> [onError url e @ onFinally]
      | Inr html \<Rightarrow>
          (case resolveTitle h url html of
             Inl e \<Rightarrow> [onError url e @ onFinally]
           | Inr title \<Rightarrow>
               (let fileName = sanitizeFileName_ext title @ js ''.md'';
                    content = renderTemplate st url title;
                    filePath = getNotePath h st fileName
                in [VaultCreate filePath content] # afterCreate st h url filePath content)))"

definition processDroppedUrl :: "settings \<Rightarrow> host \<Rightarrow> jsstring \<Rightarrow> effect list list" where
  "processDroppedUrl st h url =
     (case encodeURIComponent url of
        Inl e \<Rightarrow> [SetProcessingCount 1 # onError url e @ onFinally]
      | Inr enc \<Rightarrow>
          (let request = js ''https://api.allorigins.win/get?url='' @ enc
           in [SetProcessingCount 1, Fetch request] # afterFetch st h url request))"

text \<open>
  \<^verbatim>\<open>e.dataTransfer.getData('text/plain').split('\n').filter(url => url.trim())\<close>: the
  lines of the payload whose trimmed text is not empty.
\<close>

definition droppedUrls :: "jsstring \<Rightarrow> jsstring list" where
  "droppedUrls payload = filter (\<lambda>url. trim url \<noteq> []) (split newline payload)"

section \<open>Concurrency Tracker\<close>

text \<open>
  The component's state as far as the pipeline touches it: \<open>processingCount\<close>, the
  runs that were started with the segments each has still to do (a run with none left
  has settled), and everything done so far. \<^verbatim>\<open>setProcessingCount\<close> is always called with
  an updater function, and queued updaters are applied in the order of the calls, so
  the state after a segment is the old count with the segment's updaters applied.
\<close>

record component =
  processingCount :: int
  pending :: "effect list list list"
  trace :: "effect list"

definition initial :: component where
  "initial = \<lparr> processingCount = 0, pending = [], trace = [] \<rparr>"

fun applyEffect :: "int \<Rightarrow> effect \<Rightarrow> int" where
  "applyEffect n (SetProcessingCount d) = n + d"
| "applyEffect n e = n"

definition runSegment :: "effect list \<Rightarrow> component \<Rightarrow> component" where
  "runSegment seg c =
     c\<lparr> processingCount := foldl applyEffect (processingCount c) seg,
        trace := trace c @ seg \<rparr>"

text \<open>
  One call \<^verbatim>\<open>processDroppedUrl(url)\<close> inside \<^verbatim>\<open>forEach\<close>: the first segment runs at
  once, the rest waits.
\<close>

definition startRun :: "settings \<Rightarrow> component \<Rightarrow> host \<times> jsstring \<Rightarrow> component" where
  "startRun st c hu =
     (case processDroppedUrl st (fst hu) (snd hu) of
        [] \<Rightarrow> c
      | seg # rest \<Rightarrow> (runSegment seg c)\<lparr> pending := pending c @ [rest] \<rparr>)"

text \<open>
  \<^verbatim>\<open>handleDrop\<close> of the multi-URL variant. The host's answers may differ from run to
  run, so \<open>hosts i\<close> is what the run of the \<open>i\<close>-th dropped URL will meet.
\<close>

definition handleDrop :: "settings \<Rightarrow> (nat \<Rightarrow> host) \<Rightarrow> jsstring \<Rightarrow> component \<Rightarrow> component" where
  "handleDrop st hosts payload c =
     (let urls = droppedUrls payload
      in foldl (startRun st)
           (runSegment [PreventDefault, StopPropagation, SetIsDragging False] c)
           (zip (map hosts [0..<length urls]) urls))"

text \<open>A suspended run is resumed and does its next segment.\<close>

definition resumeRun :: "nat \<Rightarrow> component \<Rightarrow> component" where
  "resumeRun i c =
     (case pending c ! i of
        [] \<Rightarrow> c
      | seg # rest \<Rightarrow> (runSegment seg c)\<lparr> pending := (pending c)[i := rest] \<rparr>)"

text \<open>
  What can happen next: a drop, or one run that has not settled is resumed. Any order
  of resumptions is allowed.
\<close>

inductive step :: "component \<Rightarrow> component \<Rightarrow> bool" where
  drop: "step c (handleDrop st hosts payload c)"
| resume: "i < length (pending c) \<Longrightarrow> pending c ! i \<noteq> [] \<Longrightarrow> step c (resumeRun i c)"

definition reachable :: "component \<Rightarrow> bool" where
  "reachable c = step\<^sup>*\<^sup>* initial c"

text \<open>The runs that have not settled.\<close>

definition inFlight :: "component \<Rightarrow> nat" where
  "inFlight c = length (filter (\<lambda>run. run \<noteq> []) (pending c))"

text \<open>The counts the component goes through while a list of effects is applied.\<close>

fun countHistory :: "int \<Rightarrow> effect list \<Rightarrow> int list" where
  "countHistory n [] = []"
| "countHistory n (e # es) = applyEffect n e # countHistory (applyEffect n e) es"

text \<open>Whether an effect is a call of \<^verbatim>\<open>setProcessingCount\<close>.\<close>

fun touchesCount :: "effect \<Rightarrow> bool" where
  "touchesCount (SetProcessingCount d) = True"
| "touchesCount e = False"

text \<open>What a list of effects adds to the count.\<close>

definition delta :: "effect list \<Rightarrow> int" where
  "delta seg = foldl applyEffect 0 seg"

text \<open>
  The segments a suspended run has still to do leave the count alone until the last
  one, which takes one off.
\<close>

fun settles :: "effect list list \<Rightarrow> bool" where
  "settles [] = True"
| "settles [seg] = (delta seg = - 1)"
| "settles (seg # rest) = (delta seg = 0 \<and> settles rest)"

section \<open>Example hosts\<close>

text \<open>
  Concrete answers of the host, for the examples below. \<open>host_ok\<close>: everything
  succeeds and the page is titled \<^verbatim>\<open>Zed\<close> (so the URL is never parsed, and what
  the constructor would answer does not matter). \<open>host_exists\<close>: the same, but the
  note exists already.
\<close>

definition host_ok :: host where
  "host_ok =
     \<lparr> proxyContents = (\<lambda>r. Inr (js ''<title>Zed</title>'')),
       titleText = (\<lambda>html. Some (js ''Zed'')),
       newURL = (\<lambda>u. Inl (ErrorObj (js ''Invalid URL''))),
       normalizePath = normalizePath_spec,
       getNewFileParent = None,
       vaultCreate = (\<lambda>p c. Inr (Some p)),
       openFile = (\<lambda>f. Inr ()) \<rparr>"

definition host_exists :: host where
  "host_exists = host_ok\<lparr> vaultCreate := (\<lambda>p c. Inl (ErrorObj (js ''File already exists.''))) \<rparr>"


text \<open>
  \<open>host_articles\<close>: a page without a \<^verbatim>\<open>title\<close> element, dropped as
  \<^verbatim>\<open>https://example.com/articles/\<close>. \<open>host_blog\<close>: the same for
  \<^verbatim>\<open>https://example.com/blog/my-post\<close>. \<open>host_file_url\<close>: the same for \<^verbatim>\<open>file:///\<close>, which
  the \<^verbatim>\<open>URL\<close> constructor parses to an empty hostname and the path \<^verbatim>\<open>/\<close>.
  \<open>host_blank\<close>: a single space was dropped and the proxy does not answer.
\<close>

definition host_articles :: host where
  "host_articles =
     host_ok\<lparr> titleText := (\<lambda>html. None),
              newURL := (\<lambda>u. Inr \<lparr> hostname = js ''example.com'', pathname = js ''/articles/'' \<rparr>) \<rparr>"

definition host_blog :: host where
  "host_blog =
     host_ok\<lparr> titleText := (\<lambda>html. None),
              newURL := (\<lambda>u. Inr \<lparr> hostname = js ''example.com'', pathname = js ''/blog/my-post'' \<rparr>) \<rparr>"

definition host_file_url :: host where
  "host_file_url =
     host_ok\<lparr> titleText := (\<lambda>html. None),
              newURL := (\<lambda>u. Inr \<lparr> hostname = [], pathname = js ''/'' \<rparr>) \<rparr>"

definition host_blank :: host where
  "host_blank =
     host_ok\<lparr> proxyContents := (\<lambda>r. Inl (ErrorObj (js ''Failed to fetch''))) \<rparr>"

definition settings_inbox :: settings where
  "settings_inbox = DEFAULT_SETTINGS\<lparr> noteLocation := Custom, customNoteLocation := js ''Inbox/URLs'' \<rparr>"

text \<open>
  Two drops of two lines each. In the first the second note exists already. In the
  second the first line is a lone surrogate (U+D83D), which \<^verbatim>\<open>encodeURIComponent\<close>
  refuses.
\<close>

definition payload_two :: jsstring where
  "payload_two = js ''https://example.com/a\<newline>https://example.com/b''"

definition hosts_two :: "nat \<Rightarrow> host" where
  "hosts_two i = (if i = 0 then host_ok else host_exists)"

definition payload_bad_first :: jsstring where
  "payload_bad_first = 55357 # newline # js ''https://example.com/b''"

definition hosts_ok :: "nat \<Rightarrow> host" where
  "hosts_ok i = host_ok"

section \<open>Properties of the sanitizer\<close>


lemma not_space_hyphen [simp]: "\<not> isSpace hyphen"
  by (simp add: isSpace_def hyphen_def)

lemma not_space_emDash [simp]: "\<not> isSpace emDash"
  by (simp add: isSpace_def emDash_def)

lemma word_not_space: "isWord c \<Longrightarrow> \<not> isSpace c"
  by (auto simp: isWord_def isSpace_def)

lemma hyphen_neq_emDash [simp]: "hyphen \<noteq> emDash" "emDash \<noteq> hyphen"
  by (simp_all add: hyphen_def emDash_def)

lemma not_word_hyphen [simp]: "\<not> isWord hyphen"
  by (simp add: isWord_def hyphen_def)

lemma not_word_emDash [simp]: "\<not> isWord emDash"
  by (simp add: isWord_def emDash_def)

lemma replaceDash_spaces:
  "dropWhile isSpace (c # cs) = [] \<Longrightarrow> replaceDash (c # cs) = c # replaceDash cs"
  by simp

lemma replaceDash_match:
  "dropWhile isSpace (c # cs) = hyphen # r \<Longrightarrow>
   replaceDash (c # cs) = emDash # replaceDash (dropWhile isSpace r)"
  by simp

lemma replaceDash_copy:
  "dropWhile isSpace (c # cs) = d # r \<Longrightarrow> d \<noteq> hyphen \<Longrightarrow>
   replaceDash (c # cs) = c # replaceDash cs"
  by simp

lemma replaceDash_cases:
  obtains (spaces) "dropWhile isSpace (c # cs) = []" "\<forall>x\<in>set (c # cs). isSpace x"
  | (match) w r where "c # cs = w @ hyphen # r" "\<forall>x\<in>set w. isSpace x"
      "dropWhile isSpace (c # cs) = hyphen # r"
  | (copy) d r where "dropWhile isSpace (c # cs) = d # r" "d \<noteq> hyphen" "c \<noteq> hyphen"
proof (cases "dropWhile isSpace (c # cs)")
  case Nil
  then have "\<forall>x\<in>set (c # cs). isSpace x"
    by (metis dropWhile_eq_Nil_conv)
  with Nil show ?thesis by (rule spaces)
next
  case (Cons d r)
  show ?thesis
  proof (cases "d = hyphen")
    case True
    have "c # cs = takeWhile isSpace (c # cs) @ hyphen # r"
      using Cons True by (metis takeWhile_dropWhile_id)
    moreover have "\<forall>x\<in>set (takeWhile isSpace (c # cs)). isSpace x"
      by (meson set_takeWhileD)
    ultimately show ?thesis using Cons True match by blast
  next
    case False
    have "c \<noteq> hyphen"
    proof
      assume "c = hyphen"
      then have "dropWhile isSpace (c # cs) = c # cs" by simp
      with Cons False \<open>c = hyphen\<close> show False by simp
    qed
    with Cons False show ?thesis by (rule copy)
  qed
qed

declare replaceDash.simps(2) [simp del]

lemma dropWhile_shorter: "xs = w @ h # r \<Longrightarrow> length (dropWhile P r) < length xs"
  using length_dropWhile_le [of P r] by simp

lemma in_dropWhile: "x \<in> set r \<Longrightarrow> \<not> P x \<Longrightarrow> x \<in> set (dropWhile P r)"
  by (induction r) auto

lemma replaceDash_sound:
  "x \<in> set (replaceDash s) \<Longrightarrow> x \<in> set s \<or> (x = emDash \<and> hyphen \<in> set s)"
proof (induction s rule: length_induct)
  case (1 s)
  show ?case
  proof (cases s)
    case Nil
    with 1 show ?thesis by simp
  next
    case (Cons c cs)
    show ?thesis
    proof (cases c cs rule: replaceDash_cases)
      case spaces
      have "replaceDash s = c # replaceDash cs"
        unfolding Cons by (rule replaceDash_spaces [OF spaces(1)])
      with 1 Cons show ?thesis by auto
    next
      case (match w r)
      have eq: "replaceDash s = emDash # replaceDash (dropWhile isSpace r)"
        unfolding Cons by (rule replaceDash_match [OF match(3)])
      have "length (dropWhile isSpace r) < length s"
        using match(1) Cons dropWhile_shorter by metis
      then have "x \<in> set (replaceDash (dropWhile isSpace r)) \<Longrightarrow>
                 x \<in> set (dropWhile isSpace r) \<or> (x = emDash \<and> hyphen \<in> set (dropWhile isSpace r))"
        using 1 by blast
      moreover have "set (dropWhile isSpace r) \<subseteq> set s"
        using match(1) Cons set_dropWhileD by fastforce
      moreover have "hyphen \<in> set s" using match(1) Cons by simp
      ultimately show ?thesis using 1(2) eq by auto
    next
      case (copy d r)
      have "replaceDash s = c # replaceDash cs"
        unfolding Cons by (rule replaceDash_copy [OF copy(1,2)])
      with 1 Cons show ?thesis by auto
    qed
  qed
qed

lemma replaceDash_keeps:
  "x \<in> set s \<Longrightarrow> \<not> isSpace x \<Longrightarrow> x \<noteq> hyphen \<Longrightarrow> x \<in> set (replaceDash s)"
proof (induction s rule: length_induct)
  case (1 s)
  show ?case
  proof (cases s)
    case Nil
    with 1 show ?thesis by simp
  next
    case (Cons c cs)
    show ?thesis
    proof (cases c cs rule: replaceDash_cases)
      case spaces
      with 1(2,3) Cons show ?thesis by blast
    next
      case (match w r)
      have eq: "replaceDash s = emDash # replaceDash (dropWhile isSpace r)"
        unfolding Cons by (rule replaceDash_match [OF match(3)])
      have len: "length (dropWhile isSpace r) < length s"
        using match(1) Cons dropWhile_shorter by metis
      have "x \<in> set r" using 1(2,3,4) match(1,2) Cons by auto
      then have "x \<in> set (dropWhile isSpace r)" using 1(3) by (rule in_dropWhile)
      then have "x \<in> set (replaceDash (dropWhile isSpace r))"
        using 1(1,3,4) len by blast
      with eq show ?thesis by simp
    next
      case (copy d r)
      have "replaceDash s = c # replaceDash cs"
        unfolding Cons by (rule replaceDash_copy [OF copy(1,2)])
      with 1 Cons show ?thesis by auto
    qed
  qed
qed

lemma replaceDash_hyphen:
  "hyphen \<in> set s \<Longrightarrow> emDash \<in> set (replaceDash s)"
proof (induction s rule: length_induct)
  case (1 s)
  show ?case
  proof (cases s)
    case Nil
    with 1 show ?thesis by simp
  next
    case (Cons c cs)
    show ?thesis
    proof (cases c cs rule: replaceDash_cases)
      case spaces
      with 1(2) Cons not_space_hyphen show ?thesis by blast
    next
      case (match w r)
      have "replaceDash s = emDash # replaceDash (dropWhile isSpace r)"
        unfolding Cons by (rule replaceDash_match [OF match(3)])
      then show ?thesis by simp
    next
      case (copy d r)
      have "replaceDash s = c # replaceDash cs"
        unfolding Cons by (rule replaceDash_copy [OF copy(1,2)])
      moreover have "hyphen \<in> set cs" using 1(2) Cons copy(3) by auto
      ultimately show ?thesis using 1(1) Cons by auto
    qed
  qed
qed

lemma replaceDash_no_hyphen: "hyphen \<notin> set (replaceDash s)"
proof (induction s rule: length_induct)
  case (1 s)
  show ?case
  proof (cases s)
    case Nil
    then show ?thesis by simp
  next
    case (Cons c cs)
    show ?thesis
    proof (cases c cs rule: replaceDash_cases)
      case spaces
      have "replaceDash s = c # replaceDash cs"
        unfolding Cons by (rule replaceDash_spaces [OF spaces(1)])
      moreover have "c \<noteq> hyphen" using spaces(2) not_space_hyphen by auto
      ultimately show ?thesis using 1 Cons by auto
    next
      case (match w r)
      have eq: "replaceDash s = emDash # replaceDash (dropWhile isSpace r)"
        unfolding Cons by (rule replaceDash_match [OF match(3)])
      have "length (dropWhile isSpace r) < length s"
        using match(1) Cons dropWhile_shorter by metis
      then have "hyphen \<notin> set (replaceDash (dropWhile isSpace r))" using 1 by blast
      with eq show ?thesis by simp
    next
      case (copy d r)
      have "replaceDash s = c # replaceDash cs"
        unfolding Cons by (rule replaceDash_copy [OF copy(1,2)])
      with 1 Cons copy(3) show ?thesis by auto
    qed
  qed
qed


declare collapse.simps(2) [simp del]

lemma collapse_sound: "x \<in> set (collapse s) \<Longrightarrow> x = hyphen \<or> (x \<in> set s \<and> \<not> isSpace x)"
proof (induction s rule: collapse.induct)
  case 1
  then show ?case by simp
next
  case (2 c cs)
  show ?case
  proof (cases "isSpace c")
    case True
    then have "collapse (c # cs) = hyphen # collapse (dropWhile isSpace cs)"
      by (simp add: collapse.simps(2))
    moreover have "set (dropWhile isSpace cs) \<subseteq> set cs"
      by (meson set_dropWhileD subsetI)
    ultimately show ?thesis using 2 True by auto
  next
    case False
    then have "collapse (c # cs) = c # collapse cs"
      by (simp add: collapse.simps(2))
    with 2 False show ?thesis by auto
  qed
qed

lemma collapse_no_space: "x \<in> set (collapse s) \<Longrightarrow> \<not> isSpace x"
  using collapse_sound [of x s] not_space_hyphen by auto

lemma collapse_Nil_iff [simp]: "collapse s = [] \<longleftrightarrow> s = []"
  by (cases s) (simp_all add: collapse.simps(2))

lemma trimEnd_Nil_iff: "trimEnd s = [] \<longleftrightarrow> (\<forall>c\<in>set s. isSpace c)"
  by (simp add: trimEnd_def)

lemma some_nonspace_trimStart:
  "(\<exists>c\<in>set (trimStart s). \<not> isSpace c) \<longleftrightarrow> (\<exists>c\<in>set s. \<not> isSpace c)"
proof -
  have "set s = set (takeWhile isSpace s) \<union> set (dropWhile isSpace s)"
    by (metis set_append takeWhile_dropWhile_id)
  moreover have "\<forall>c\<in>set (takeWhile isSpace s). isSpace c"
    by (meson set_takeWhileD)
  ultimately show ?thesis unfolding trimStart_def by blast
qed

lemma trim_Nil_iff: "trim s = [] \<longleftrightarrow> (\<forall>c\<in>set s. isSpace c)"
  using some_nonspace_trimStart [of s] by (auto simp: trim_def trimEnd_Nil_iff)

lemma set_trim_subset: "set (trim s) \<subseteq> set s"
proof -
  have "set (trimEnd u) \<subseteq> set u" for u
    unfolding trimEnd_def using set_dropWhileD [of _ isSpace "rev u"] by auto
  moreover have "set (trimStart s) \<subseteq> set s"
    unfolding trimStart_def by (meson set_dropWhileD subsetI)
  ultimately show ?thesis unfolding trim_def by blast
qed

lemma toLowerUnit_space [simp]: "isSpace (toLowerUnit c) \<longleftrightarrow> isSpace c"
  by (auto simp: toLowerUnit_def isSpace_def)

lemma sanitize_min_no_space: "x \<in> set (sanitizeFileName_min t) \<Longrightarrow> \<not> isSpace x"
  unfolding sanitizeFileName_min_def by (rule collapse_no_space)

lemma sanitize_ext_no_space: "x \<in> set (sanitizeFileName_ext t) \<Longrightarrow> \<not> isSpace x"
  unfolding sanitizeFileName_ext_def toLowerCase_def
  using collapse_no_space by auto

lemma sanitize_min_Nil_iff:
  "sanitizeFileName_min t = [] \<longleftrightarrow> \<not> (\<exists>c\<in>set t. isWord c \<or> c = hyphen)"
proof -
  have "sanitizeFileName_min t = [] \<longleftrightarrow> (\<forall>c\<in>set (strip_min t). isSpace c)"
    by (simp add: sanitizeFileName_min_def trim_Nil_iff)
  also have "\<dots> \<longleftrightarrow> \<not> (\<exists>c\<in>set t. isWord c \<or> c = hyphen)"
    unfolding strip_min_def using word_not_space not_space_hyphen by auto
  finally show ?thesis .
qed

lemma sanitize_ext_Nil_iff:
  "sanitizeFileName_ext t = [] \<longleftrightarrow> \<not> (\<exists>c\<in>set t. isWord c \<or> c = hyphen \<or> c = emDash)"
proof -
  have "sanitizeFileName_ext t = [] \<longleftrightarrow> (\<forall>c\<in>set (strip_ext (replaceDash t)). isSpace c)"
    by (simp add: sanitizeFileName_ext_def toLowerCase_def trim_Nil_iff)
  also have "\<dots> \<longleftrightarrow> (\<forall>c\<in>set (replaceDash t). \<not> isWord c \<and> c \<noteq> emDash)"
    unfolding strip_ext_def using word_not_space not_space_emDash by auto
  also have "\<dots> \<longleftrightarrow> \<not> (\<exists>c\<in>set t. isWord c \<or> c = hyphen \<or> c = emDash)"
  proof
    assume a: "\<forall>c\<in>set (replaceDash t). \<not> isWord c \<and> c \<noteq> emDash"
    show "\<not> (\<exists>c\<in>set t. isWord c \<or> c = hyphen \<or> c = emDash)"
    proof
      assume "\<exists>c\<in>set t. isWord c \<or> c = hyphen \<or> c = emDash"
      then obtain c where c: "c \<in> set t" "isWord c \<or> c = hyphen \<or> c = emDash" by blast
      show False
      proof (cases "c = hyphen")
        case True
        with c(1) have "emDash \<in> set (replaceDash t)" by (simp add: replaceDash_hyphen)
        with a show False by blast
      next
        case False
        with c(2) have "\<not> isSpace c" using word_not_space not_space_emDash by blast
        with c(1) False have "c \<in> set (replaceDash t)" by (simp add: replaceDash_keeps)
        with a c(2) False show False by blast
      qed
    qed
  next
    assume a: "\<not> (\<exists>c\<in>set t. isWord c \<or> c = hyphen \<or> c = emDash)"
    show "\<forall>c\<in>set (replaceDash t). \<not> isWord c \<and> c \<noteq> emDash"
    proof
      fix c assume "c \<in> set (replaceDash t)"
      then have "c \<in> set t \<or> (c = emDash \<and> hyphen \<in> set t)" by (rule replaceDash_sound)
      with a show "\<not> isWord c \<and> c \<noteq> emDash" by blast
    qed
  qed
  finally show ?thesis .
qed

lemma before_lower_units:
  "x \<in> set (collapse (trim (strip_ext (replaceDash t)))) \<Longrightarrow>
   isWord x \<or> x = hyphen \<or> x = emDash"
proof -
  assume "x \<in> set (collapse (trim (strip_ext (replaceDash t))))"
  then have "x = hyphen \<or> (x \<in> set (trim (strip_ext (replaceDash t))) \<and> \<not> isSpace x)"
    by (rule collapse_sound)
  moreover have "set (trim (strip_ext (replaceDash t))) \<subseteq> set (strip_ext (replaceDash t))"
    by (rule set_trim_subset)
  ultimately show ?thesis unfolding strip_ext_def by auto
qed

text \<open>
  Claim C1, as the code has it. Both variants of the sanitizer return a string without
  white space, for every title. The result is non-empty exactly when the title holds a
  unit that survives: a word character or a hyphen for the minimal variant, a word
  character, a hyphen or an em dash for the extended one. A non-empty title of other
  units only (punctuation, white space) gives the empty string.
\<close>

theorem sanitizeFileName_no_space:
  "(\<forall>c\<in>set (sanitizeFileName_min t). \<not> isSpace c) \<and>
   (\<forall>c\<in>set (sanitizeFileName_ext t). \<not> isSpace c) \<and>
   (sanitizeFileName_min t \<noteq> [] \<longleftrightarrow> (\<exists>c\<in>set t. isWord c \<or> c = hyphen)) \<and>
   (sanitizeFileName_ext t \<noteq> [] \<longleftrightarrow> (\<exists>c\<in>set t. isWord c \<or> c = hyphen \<or> c = emDash))"
  using sanitize_min_no_space [of _ t] sanitize_ext_no_space [of _ t]
    sanitize_min_Nil_iff [of t] sanitize_ext_Nil_iff [of t]
  by blast

lemmas js_eval = js_def hyphen_def emDash_def slash_def newline_def isSpace_def isWord_def
  trim_def trimStart_def trimEnd_def strip_min_def strip_ext_def toLowerCase_def toLowerUnit_def
  sanitizeFileName_min_def sanitizeFileName_ext_def collapse.simps(2) replaceDash.simps(2)
  uriUnreserved_def leadSurrogate_def trailSurrogate_def percentOctet_def hexDigit_def utf8_def

text \<open>The theorem at the title \<^verbatim>\<open>My Post\<close>.\<close>

theorem sanitizeFileName_no_space_witness:
  "sanitizeFileName_min (js ''My Post'') = js ''My-Post'' \<and>
   sanitizeFileName_ext (js ''My Post'') = js ''my-post'' \<and>
   \<not> (\<exists>c\<in>set (sanitizeFileName_min (js ''My Post'')). isSpace c) \<and>
   \<not> (\<exists>c\<in>set (sanitizeFileName_ext (js ''My Post'')). isSpace c) \<and>
   (\<exists>c\<in>set (js ''My Post''). isWord c \<or> c = hyphen)"
proof -
  have a: "sanitizeFileName_min (js ''My Post'') = js ''My-Post''"
    by (simp add: js_eval)
  have b: "sanitizeFileName_ext (js ''My Post'') = js ''my-post''"
    by (simp add: js_eval)
  have c: "\<exists>c\<in>set (js ''My Post''). isWord c \<or> c = hyphen"
    by (simp add: js_def isWord_def)
  show ?thesis
    using sanitizeFileName_no_space [of "js ''My Post''"] a b c by blast
qed

text \<open>
  Claim C1 as stated fails: the non-empty title \<^verbatim>\<open>?!\<close> is sanitized to the empty
  string by both variants.
\<close>

theorem sanitizeFileName_empty_counterexample:
  "js ''?!'' \<noteq> [] \<and> sanitizeFileName_min (js ''?!'') = [] \<and> sanitizeFileName_ext (js ''?!'') = []"
  by (simp add: js_eval)

section \<open>Properties of the title extractor\<close>

lemma split_not_Nil [simp]: "split sep s \<noteq> []"
  by (induction s) (auto split: list.splits)

lemma split_no_sep: "sep \<notin> set seg \<Longrightarrow> split sep seg = [seg]"
  by (induction seg) auto

lemma length_split: "length (split sep s) = Suc (length (filter (\<lambda>c. c = sep) s))"
  by (induction s) (auto split: list.splits)

lemma last_split_Cons:
  "sep \<in> set cs \<Longrightarrow> last (split sep (c # cs)) = last (split sep cs)"
proof -
  assume a: "sep \<in> set cs"
  then have "filter (\<lambda>c. c = sep) cs \<noteq> []"
    by (simp add: filter_empty_conv)
  then have len: "2 \<le> length (split sep cs)"
    by (cases "filter (\<lambda>c. c = sep) cs") (simp_all add: length_split)
  then obtain p q ps where ps: "split sep cs = p # q # ps"
    by (cases "split sep cs"; cases "tl (split sep cs)") auto
  show ?thesis by (simp add: ps)
qed

lemma last_split_append:
  "sep \<notin> set seg \<Longrightarrow> last (split sep (pre @ sep # seg)) = seg"
proof (induction pre)
  case Nil
  then show ?case by (simp add: split_no_sep)
next
  case (Cons c pre)
  have "last (split sep (c # (pre @ sep # seg))) = last (split sep (pre @ sep # seg))"
    by (rule last_split_Cons) simp
  with Cons show ?case by simp
qed

lemma last_split_tail:
  assumes "s = pre @ seg" "sep \<notin> set seg" "pre = [] \<or> last pre = sep"
  shows "last (split sep s) = seg"
proof (cases "pre = []")
  case True
  with assms show ?thesis by (simp add: split_no_sep)
next
  case False
  with assms(3) have "pre = butlast pre @ [sep]"
    by (metis append_butlast_last_id)
  then have "s = butlast pre @ sep # seg" using assms(1) by (metis append.assoc append_Cons append_Nil)
  then show ?thesis using assms(2) by (simp add: last_split_append)
qed

lemma fallbackTitle_tail:
  assumes "pathname u = pre @ seg" "slash \<notin> set seg" "pre = [] \<or> last pre = slash"
  shows "fallbackTitle u = (if seg = [] then hostname u else seg)"
  using last_split_tail [OF assms] by (simp add: fallbackTitle_def pop_def)

text \<open>
  Claim C2. When the document has no title text and the URL parses, the title is the
  last segment of the path when there is one, and the hostname when there is none.
  The last segment is the text after the last slash of the path (\<open>seg\<close>, where the
  path is \<open>pre @ seg\<close>, \<open>seg\<close> holds no slash and \<open>pre\<close> is empty or ends in one);
  a path that is empty or ends in a slash has none, as in the scenario of the
  trailing slash.
\<close>

theorem resolveTitle_fallback:
  assumes "titleText h html = None \<or> titleText h html = Some []"
    and "newURL h url = Inr u"
    and "pathname u = pre @ seg" and "slash \<notin> set seg" and "pre = [] \<or> last pre = slash"
  shows "resolveTitle h url html = Inr (if seg = [] then hostname u else seg)"
  using assms(1,2) fallbackTitle_tail [OF assms(3,4,5)]
  by (auto simp: resolveTitle_def)

lemmas host_eval = host_ok_def host_exists_def host_articles_def
  host_file_url_def host_blog_def host_blank_def settings_inbox_def DEFAULT_SETTINGS_def

text \<open>
  The theorem at \<^verbatim>\<open>https://example.com/blog/my-post\<close>, where the title is
  \<^verbatim>\<open>my-post\<close>, and at \<^verbatim>\<open>https://example.com/articles/\<close>, where it is the hostname.
\<close>

theorem resolveTitle_fallback_witness:
  "titleText host_blog [] = None \<and>
   newURL host_blog (js ''https://example.com/blog/my-post'')
     = Inr \<lparr> hostname = js ''example.com'', pathname = js ''/blog/my-post'' \<rparr> \<and>
   js ''/blog/my-post'' = js ''/blog/'' @ js ''my-post'' \<and>
   slash \<notin> set (js ''my-post'') \<and> last (js ''/blog/'') = slash \<and>
   resolveTitle host_blog (js ''https://example.com/blog/my-post'') [] = Inr (js ''my-post'') \<and>
   titleText host_articles [] = None \<and>
   newURL host_articles (js ''https://example.com/articles/'')
     = Inr \<lparr> hostname = js ''example.com'', pathname = js ''/articles/'' \<rparr> \<and>
   last (js ''/articles/'') = slash \<and>
   resolveTitle host_articles (js ''https://example.com/articles/'') [] = Inr (js ''example.com'')"
proof -
  have 1: "titleText host_blog [] = None \<or> titleText host_blog [] = Some []"
    by (simp add: host_eval)
  have 2: "newURL host_blog (js ''https://example.com/blog/my-post'')
     = Inr \<lparr> hostname = js ''example.com'', pathname = js ''/blog/my-post'' \<rparr>"
    by (simp add: host_eval)
  have 3: "pathname \<lparr> hostname = js ''example.com'', pathname = js ''/blog/my-post'' \<rparr>
     = js ''/blog/'' @ js ''my-post''"
    by (simp add: js_def)
  have 4: "slash \<notin> set (js ''my-post'')" by (simp add: js_def slash_def)
  have 5: "js ''/blog/'' = [] \<or> last (js ''/blog/'') = slash"
    by (simp add: js_def slash_def)
  have 6: "js ''my-post'' \<noteq> []" by (simp add: js_def)
  have a: "titleText host_blog [] = None \<and>
     newURL host_blog (js ''https://example.com/blog/my-post'')
       = Inr \<lparr> hostname = js ''example.com'', pathname = js ''/blog/my-post'' \<rparr> \<and>
     js ''/blog/my-post'' = js ''/blog/'' @ js ''my-post'' \<and>
     slash \<notin> set (js ''my-post'') \<and> last (js ''/blog/'') = slash \<and>
     resolveTitle host_blog (js ''https://example.com/blog/my-post'') [] = Inr (js ''my-post'')"
    using resolveTitle_fallback [OF 1 2 3 4 5] 1 2 3 4 5 6
    by (simp add: host_eval js_def slash_def)
  have 7: "titleText host_articles [] = None \<or> titleText host_articles [] = Some []"
    by (simp add: host_eval)
  have 8: "newURL host_articles (js ''https://example.com/articles/'')
     = Inr \<lparr> hostname = js ''example.com'', pathname = js ''/articles/'' \<rparr>"
    by (simp add: host_eval)
  have 9: "pathname \<lparr> hostname = js ''example.com'', pathname = js ''/articles/'' \<rparr>
     = js ''/articles/'' @ []"
    by simp
  have 10: "slash \<notin> set []" by simp
  have 11: "js ''/articles/'' = [] \<or> last (js ''/articles/'') = slash"
    by (simp add: js_def slash_def)
  have b: "titleText host_articles [] = None \<and>
     newURL host_articles (js ''https://example.com/articles/'')
       = Inr \<lparr> hostname = js ''example.com'', pathname = js ''/articles/'' \<rparr> \<and>
     last (js ''/articles/'') = slash \<and>
     resolveTitle host_articles (js ''https://example.com/articles/'') [] = Inr (js ''example.com'')"
    using resolveTitle_fallback [OF 7 8 9 10 11] 7 8 11
    by (simp add: host_eval js_def slash_def)
  from a b show ?thesis by blast
qed

text \<open>
  Claim C8, as the code has it. For a URL that parses to a non-empty hostname, and every
  HTML input, the title extractor returns a non-empty string.
\<close>

theorem resolveTitle_nonempty:
  assumes "newURL h url = Inr u" and "hostname u \<noteq> []"
  shows "\<exists>t. resolveTitle h url html = Inr t \<and> t \<noteq> []"
  using assms by (auto simp: resolveTitle_def fallbackTitle_def split: option.splits)

text \<open>
  The theorem at \<^verbatim>\<open>https://example.com/articles/\<close> and a document without title.
\<close>

theorem resolveTitle_nonempty_witness:
  "newURL host_articles (js ''https://example.com/articles/'')
     = Inr \<lparr> hostname = js ''example.com'', pathname = js ''/articles/'' \<rparr> \<and>
   js ''example.com'' \<noteq> [] \<and>
   (\<exists>t. resolveTitle host_articles (js ''https://example.com/articles/'') [] = Inr t \<and> t \<noteq> [])"
proof -
  have 1: "newURL host_articles (js ''https://example.com/articles/'')
     = Inr \<lparr> hostname = js ''example.com'', pathname = js ''/articles/'' \<rparr>"
    by (simp add: host_eval)
  have 2: "hostname \<lparr> hostname = js ''example.com'', pathname = js ''/articles/'' \<rparr> \<noteq> []"
    by (simp add: js_def)
  from resolveTitle_nonempty [OF 1 2, of "[]"] 1 2 show ?thesis by simp
qed

text \<open>
  Claim C8 as stated fails: \<^verbatim>\<open>file:///\<close> parses, its path ends in a slash and its
  hostname is empty, so a document without title gets the empty title.
\<close>

theorem resolveTitle_empty_counterexample:
  "newURL host_file_url (js ''file:///'') = Inr \<lparr> hostname = [], pathname = js ''/'' \<rparr> \<and>
   resolveTitle host_file_url (js ''file:///'') [] = Inr []"
  by (simp add: resolveTitle_def fallbackTitle_def pop_def host_eval js_def slash_def)


section \<open>Properties of the note placer\<close>

lemma normalizePath_spec_id: "no_duplicate_separators p \<Longrightarrow> normalizePath_spec p = p"
  by (induction p rule: normalizePath_spec.induct) auto

lemma no_dup_no_slash: "slash \<notin> set q \<Longrightarrow> no_duplicate_separators q"
  by (induction q rule: no_duplicate_separators.induct) auto

lemma no_dup_Cons:
  "no_duplicate_separators (v # q) \<longleftrightarrow>
   (q = [] \<or> (\<not> (v = slash \<and> hd q = slash) \<and> no_duplicate_separators q))"
  by (cases q) simp_all

lemma no_dup_append:
  "no_duplicate_separators p \<Longrightarrow> slash \<notin> set q \<Longrightarrow> no_duplicate_separators (p @ q)"
proof (induction p)
  case Nil
  then show ?case by (simp add: no_dup_no_slash)
next
  case (Cons c p)
  show ?case
  proof (cases "p @ q = []")
    case True
    then show ?thesis by simp
  next
    case False
    have tail: "no_duplicate_separators (p @ q)"
    proof (cases "p = []")
      case True
      then show ?thesis using Cons.prems(2) by (simp add: no_dup_no_slash)
    next
      case False
      then have "no_duplicate_separators p" using Cons.prems(1) by (simp add: no_dup_Cons)
      then show ?thesis using Cons.IH Cons.prems(2) by simp
    qed
    have "\<not> (c = slash \<and> hd (p @ q) = slash)"
    proof (cases "p = []")
      case True
      with False have "q \<noteq> []" by simp
      then have "hd q \<in> set q" by simp
      then show ?thesis using True Cons.prems(2) by auto
    next
      case False
      then show ?thesis using Cons.prems(1) by (simp add: no_dup_Cons)
    qed
    with tail False show ?thesis using no_dup_Cons [of c "p @ q"] by simp
  qed
qed

lemma toLowerUnit_word: "isWord c \<Longrightarrow> isWord (toLowerUnit c)"
  by (auto simp: isWord_def toLowerUnit_def)

lemma toLowerUnit_hyphen [simp]: "toLowerUnit hyphen = hyphen"
  by (simp add: toLowerUnit_def hyphen_def)

lemma toLowerUnit_emDash [simp]: "toLowerUnit emDash = emDash"
  by (simp add: toLowerUnit_def emDash_def)

lemma sanitize_min_units:
  "x \<in> set (sanitizeFileName_min t) \<Longrightarrow> isWord x \<or> x = hyphen"
proof -
  assume "x \<in> set (sanitizeFileName_min t)"
  then have "x = hyphen \<or> (x \<in> set (trim (strip_min t)) \<and> \<not> isSpace x)"
    unfolding sanitizeFileName_min_def by (rule collapse_sound)
  moreover have "set (trim (strip_min t)) \<subseteq> set (strip_min t)"
    by (rule set_trim_subset)
  ultimately show ?thesis unfolding strip_min_def by auto
qed

lemma sanitize_ext_units:
  "x \<in> set (sanitizeFileName_ext t) \<Longrightarrow> isWord x \<or> x = hyphen \<or> x = emDash"
proof -
  assume "x \<in> set (sanitizeFileName_ext t)"
  then obtain y where y: "y \<in> set (collapse (trim (strip_ext (replaceDash t))))" "x = toLowerUnit y"
    unfolding sanitizeFileName_ext_def toLowerCase_def by auto
  from before_lower_units [OF y(1)] y(2) show ?thesis
    using toLowerUnit_word by auto
qed

lemma plain_path_inbox:
  assumes "\<forall>x\<in>set slug. isWord x \<or> x = hyphen \<or> x = emDash"
  shows "plain_path (js ''Inbox/URLs/'' @ slug @ js ''.md'')"
proof -
  have ns: "slash \<notin> set (slug @ js ''.md'')"
    using assms by (auto simp: js_def slash_def isWord_def hyphen_def emDash_def)
  have "no_duplicate_separators (js ''Inbox/URLs/'')"
    by (simp add: js_def slash_def)
  then have nd: "no_duplicate_separators (js ''Inbox/URLs/'' @ (slug @ js ''.md''))"
    using ns by (rule no_dup_append)
  have units: "list_all (\<lambda>c. isWord c \<or> c = hyphen \<or> c = emDash \<or> c = 46 \<or> c = slash)
      (js ''Inbox/URLs/'' @ slug @ js ''.md'')"
    using assms by (auto simp: list_all_iff js_def slash_def isWord_def)
  have "hd (js ''Inbox/URLs/'' @ slug @ js ''.md'') \<noteq> slash"
    by (simp add: js_def slash_def)
  moreover have "last (js ''Inbox/URLs/'' @ slug @ js ''.md'') \<noteq> slash"
    by (simp add: js_def slash_def)
  moreover have "js ''Inbox/URLs/'' @ slug @ js ''.md'' \<noteq> []"
    by (simp add: js_def)
  ultimately show ?thesis using nd units unfolding plain_path_def by simp
qed

lemma getNotePath_custom_eq:
  "noteLocation st = Custom \<Longrightarrow>
   getNotePath h st fileName = normalizePath h (customNoteLocation st @ [slash] @ fileName)"
  by (simp add: getNotePath_def)

lemma inbox_join: "js ''Inbox/URLs'' @ [slash] @ f = js ''Inbox/URLs/'' @ f"
  by (simp add: js_def slash_def)

lemma getNotePath_inbox:
  assumes "noteLocation st = Custom" "customNoteLocation st = js ''Inbox/URLs''"
    and "\<forall>p. plain_path p \<longrightarrow> normalizePath h p = p"
    and "plain_path (js ''Inbox/URLs/'' @ f)"
  shows "getNotePath h st f = js ''Inbox/URLs/'' @ f"
proof -
  have "getNotePath h st f = normalizePath h (js ''Inbox/URLs'' @ [slash] @ f)"
    using getNotePath_custom_eq [OF assms(1)] assms(2) by metis
  also have "\<dots> = normalizePath h (js ''Inbox/URLs/'' @ f)"
    by (simp only: inbox_join)
  also have "\<dots> = js ''Inbox/URLs/'' @ f"
    using assms(3,4) by blast
  finally show ?thesis .
qed


text \<open>
  Claim C9. With \<^verbatim>\<open>noteLocation = custom\<close> the path is \<^verbatim>\<open>normalizePath\<close> of the
  custom location, a slash and the file name. For the location \<^verbatim>\<open>Inbox/URLs\<close> and the
  file name of any title, under either sanitizer, that is \<^verbatim>\<open>Inbox/URLs/<filename>.md\<close>
  and has no duplicate separators, provided the host's \<^verbatim>\<open>normalizePath\<close> leaves plain
  paths alone.
\<close>

theorem getNotePath_custom:
  assumes "noteLocation st = Custom"
  shows "getNotePath h st fileName = normalizePath h (customNoteLocation st @ [slash] @ fileName) \<and>
    (customNoteLocation st = js ''Inbox/URLs'' \<longrightarrow> (\<forall>p. plain_path p \<longrightarrow> normalizePath h p = p) \<longrightarrow>
       getNotePath h st (sanitizeFileName_min title @ js ''.md'')
         = js ''Inbox/URLs/'' @ sanitizeFileName_min title @ js ''.md'' \<and>
       no_duplicate_separators (getNotePath h st (sanitizeFileName_min title @ js ''.md'')) \<and>
       getNotePath h st (sanitizeFileName_ext title @ js ''.md'')
         = js ''Inbox/URLs/'' @ sanitizeFileName_ext title @ js ''.md'' \<and>
       no_duplicate_separators (getNotePath h st (sanitizeFileName_ext title @ js ''.md'')))"
proof (intro conjI impI)
  show "getNotePath h st fileName = normalizePath h (customNoteLocation st @ [slash] @ fileName)"
    using assms by (rule getNotePath_custom_eq)
next
  assume loc: "customNoteLocation st = js ''Inbox/URLs''"
    and np: "\<forall>p. plain_path p \<longrightarrow> normalizePath h p = p"
  have pmin: "plain_path (js ''Inbox/URLs/'' @ sanitizeFileName_min title @ js ''.md'')"
    by (rule plain_path_inbox) (use sanitize_min_units in blast)
  have pext: "plain_path (js ''Inbox/URLs/'' @ sanitizeFileName_ext title @ js ''.md'')"
    by (rule plain_path_inbox) (use sanitize_ext_units in blast)
  show a: "getNotePath h st (sanitizeFileName_min title @ js ''.md'')
         = js ''Inbox/URLs/'' @ sanitizeFileName_min title @ js ''.md''"
    using assms loc np pmin by (rule getNotePath_inbox)
  show b: "getNotePath h st (sanitizeFileName_ext title @ js ''.md'')
         = js ''Inbox/URLs/'' @ sanitizeFileName_ext title @ js ''.md''"
    using assms loc np pext by (rule getNotePath_inbox)
  show "no_duplicate_separators (getNotePath h st (sanitizeFileName_min title @ js ''.md''))"
    unfolding a using pmin by (simp add: plain_path_def)
  show "no_duplicate_separators (getNotePath h st (sanitizeFileName_ext title @ js ''.md''))"
    unfolding b using pext by (simp add: plain_path_def)
qed

lemma host_ok_normalizes: "plain_path p \<Longrightarrow> normalizePath host_ok p = p"
  by (simp add: host_ok_def plain_path_def normalizePath_spec_id)

text \<open>
  The theorem at the title \<^verbatim>\<open>My Post Title\<close>, with the stand-in normalization.
\<close>

theorem getNotePath_custom_witness:
  "noteLocation settings_inbox = Custom \<and>
   customNoteLocation settings_inbox = js ''Inbox/URLs'' \<and>
   plain_path (js ''Inbox/URLs/My-Post-Title.md'') \<and>
   normalizePath host_ok (js ''Inbox/URLs/My-Post-Title.md'') = js ''Inbox/URLs/My-Post-Title.md'' \<and>
   getNotePath host_ok settings_inbox (sanitizeFileName_min (js ''My Post Title'') @ js ''.md'')
     = js ''Inbox/URLs/My-Post-Title.md'' \<and>
   getNotePath host_ok settings_inbox (sanitizeFileName_ext (js ''My Post Title'') @ js ''.md'')
     = js ''Inbox/URLs/my-post-title.md''"
proof -
  have 1: "noteLocation settings_inbox = Custom" by (simp add: host_eval)
  have 2: "customNoteLocation settings_inbox = js ''Inbox/URLs''" by (simp add: host_eval)
  have 3: "\<forall>p. plain_path p \<longrightarrow> normalizePath host_ok p = p"
    using host_ok_normalizes by blast
  have 4: "sanitizeFileName_min (js ''My Post Title'') = js ''My-Post-Title''"
    by (simp add: js_eval)
  have 5: "sanitizeFileName_ext (js ''My Post Title'') = js ''my-post-title''"
    by (simp add: js_eval)
  have 6: "plain_path (js ''Inbox/URLs/My-Post-Title.md'')"
    by (simp add: plain_path_def js_def slash_def isWord_def hyphen_def emDash_def)
  from getNotePath_custom [OF 1, of host_ok "[]" "js ''My Post Title''"] 2 3
  have "getNotePath host_ok settings_inbox (sanitizeFileName_min (js ''My Post Title'') @ js ''.md'')
         = js ''Inbox/URLs/'' @ sanitizeFileName_min (js ''My Post Title'') @ js ''.md''"
    and "getNotePath host_ok settings_inbox (sanitizeFileName_ext (js ''My Post Title'') @ js ''.md'')
         = js ''Inbox/URLs/'' @ sanitizeFileName_ext (js ''My Post Title'') @ js ''.md''"
    by blast+
  then show ?thesis using 1 2 6 host_ok_normalizes [OF 6] unfolding 4 5
    by (simp add: js_def)
qed

section \<open>Properties of the drop handlers\<close>

lemma split_piece_subset: "p \<in> set (split sep s) \<Longrightarrow> set p \<subseteq> set s"
proof (induction s arbitrary: p)
  case Nil
  then show ?case by simp
next
  case (Cons c cs)
  show ?case
  proof (cases "c = sep")
    case True
    with Cons show ?thesis by auto
  next
    case False
    obtain q qs where q: "split sep cs = q # qs"
      using split_not_Nil [of sep cs] by (cases "split sep cs") auto
    with Cons.prems False have "p = c # q \<or> p \<in> set qs" by simp
    then show ?thesis
    proof
      assume "p = c # q"
      moreover have "set q \<subseteq> set cs" using Cons.IH [of q] q by simp
      ultimately show ?thesis by auto
    next
      assume "p \<in> set qs"
      then have "set p \<subseteq> set cs" using Cons.IH [of p] q by simp
      then show ?thesis by auto
    qed
  qed
qed

lemma droppedUrls_blank: "\<forall>c\<in>set payload. isSpace c \<Longrightarrow> droppedUrls payload = []"
proof -
  assume a: "\<forall>c\<in>set payload. isSpace c"
  have "trim p = []" if "p \<in> set (split newline payload)" for p
    using split_piece_subset [OF that] a by (auto simp: trim_Nil_iff)
  then show ?thesis by (simp add: droppedUrls_def filter_empty_conv)
qed

text \<open>
  Claim C10, as the code has it. An empty payload starts no pipeline in the single-URL
  variant: the handler only stops the event and clears the dragging flag. In the
  multi-URL variant a payload of white space and line breaks only leaves no URL to
  dispatch: no run is started, the count is unchanged, and nothing is fetched, created
  or shown.
\<close>

theorem handleDrop_blank:
  "handleDrop_single st h [] = [PreventDefault, StopPropagation, SetIsDragging False] \<and>
   ((\<forall>c\<in>set payload. isSpace c) \<longrightarrow>
      droppedUrls payload = [] \<and>
      pending (handleDrop st hosts payload k) = pending k \<and>
      processingCount (handleDrop st hosts payload k) = processingCount k \<and>
      trace (handleDrop st hosts payload k)
        = trace k @ [PreventDefault, StopPropagation, SetIsDragging False])"
  by (auto simp: handleDrop_single_def handleDrop_def droppedUrls_blank runSegment_def)

text \<open>
  The theorem at a payload of two blank lines.
\<close>

theorem handleDrop_blank_witness:
  "\<not> (\<exists>c\<in>set (js '' \<newline>  ''). \<not> isSpace c) \<and>
   droppedUrls (js '' \<newline>  '') = [] \<and>
   pending (handleDrop DEFAULT_SETTINGS (\<lambda>i. host_ok) (js '' \<newline>  '') initial) = [] \<and>
   processingCount (handleDrop DEFAULT_SETTINGS (\<lambda>i. host_ok) (js '' \<newline>  '') initial) = 0 \<and>
   trace (handleDrop DEFAULT_SETTINGS (\<lambda>i. host_ok) (js '' \<newline>  '') initial)
     = [PreventDefault, StopPropagation, SetIsDragging False]"
proof -
  have 1: "\<forall>c\<in>set (js '' \<newline>  ''). isSpace c"
    by (simp add: js_def isSpace_def)
  from handleDrop_blank [of DEFAULT_SETTINGS host_ok "js '' \<newline>  ''" "\<lambda>i. host_ok" initial] 1
  show ?thesis by (simp add: initial_def)
qed

text \<open>
  Claim C10 as stated fails for the single-URL variant: a payload of one space is a
  non-empty string, so the pipeline runs, the proxy is fetched and a notice is shown.
\<close>

theorem handleDrop_single_blank_counterexample:
  "list_all isSpace (js '' '') \<and>
   handleDrop_single DEFAULT_SETTINGS host_blank (js '' '')
     = [PreventDefault, StopPropagation, SetIsDragging False,
        Fetch (js ''https://api.allorigins.win/get?url=%20''),
        ConsoleError (js ''Error processing URL:'') (ErrorObj (js ''Failed to fetch'')),
        Notice (js ''Error processing URL. Check console for details.'') None]"
  by (simp add: handleDrop_single_def processDroppedUrl_single_def onError_single_def
      host_eval js_eval)


section \<open>Properties of the error handler\<close>

lemma find_first_occurs: "find_first pat (a @ pat @ b) \<noteq> None"
proof (induction a)
  case Nil
  show ?case
  proof (cases "pat @ b")
    case Nil
    then show ?thesis by simp
  next
    case (Cons x xs)
    have "prefix pat (pat @ b)" by simp
    then have "prefix pat (x # xs)" using Cons by simp
    then show ?thesis using Cons by simp
  qed
next
  case (Cons c a)
  then show ?case by auto
qed

lemma js_includes_middle: "js_includes (a @ u @ b) u"
  unfolding js_includes_def by (rule find_first_occurs)

lemma onError_exists:
  "isAlreadyExists e \<Longrightarrow>
   onError url e = [Notice (js ''URL: '' @ url @ js ''\<newline>Error: Note with this title already exists'')
             (Some 10000)]"
  by (simp add: onError_def)

lemma onError_other:
  "\<not> isAlreadyExists e \<Longrightarrow>
   onError url e = [Notice (js ''Error processing URL. Please try again.'') None,
            ConsoleError (js ''Error processing URL:'') e]"
  by (simp add: onError_def)

lemma run_encode_fails:
  "encodeURIComponent url = Inl e \<Longrightarrow>
   concat (processDroppedUrl st h url) = SetProcessingCount 1 # onError url e @ onFinally"
  by (simp add: processDroppedUrl_def)

lemma run_fetch_fails:
  "encodeURIComponent url = Inr enc \<Longrightarrow>
   proxyContents h (js ''https://api.allorigins.win/get?url='' @ enc) = Inl e \<Longrightarrow>
   concat (processDroppedUrl st h url)
     = [SetProcessingCount 1, Fetch (js ''https://api.allorigins.win/get?url='' @ enc)]
       @ onError url e @ onFinally"
  by (simp add: processDroppedUrl_def afterFetch_def)

lemma run_title_fails:
  "encodeURIComponent url = Inr enc \<Longrightarrow>
   proxyContents h (js ''https://api.allorigins.win/get?url='' @ enc) = Inr html \<Longrightarrow>
   resolveTitle h url html = Inl e \<Longrightarrow>
   concat (processDroppedUrl st h url)
     = [SetProcessingCount 1, Fetch (js ''https://api.allorigins.win/get?url='' @ enc)]
       @ onError url e @ onFinally"
  by (simp add: processDroppedUrl_def afterFetch_def)

lemma run_create_fails:
  "encodeURIComponent url = Inr enc \<Longrightarrow>
   proxyContents h (js ''https://api.allorigins.win/get?url='' @ enc) = Inr html \<Longrightarrow>
   resolveTitle h url html = Inr title \<Longrightarrow>
   vaultCreate h (getNotePath h st (sanitizeFileName_ext title @ js ''.md''))
     (renderTemplate st url title) = Inl e \<Longrightarrow>
   concat (processDroppedUrl st h url)
     = [SetProcessingCount 1, Fetch (js ''https://api.allorigins.win/get?url='' @ enc),
        VaultCreate (getNotePath h st (sanitizeFileName_ext title @ js ''.md''))
          (renderTemplate st url title)]
       @ onError url e @ onFinally"
  by (simp add: processDroppedUrl_def afterFetch_def afterCreate_def Let_def)

lemma run_open_fails:
  "encodeURIComponent url = Inr enc \<Longrightarrow>
   proxyContents h (js ''https://api.allorigins.win/get?url='' @ enc) = Inr html \<Longrightarrow>
   resolveTitle h url html = Inr title \<Longrightarrow>
   vaultCreate h (getNotePath h st (sanitizeFileName_ext title @ js ''.md''))
     (renderTemplate st url title) = Inr (Some file) \<Longrightarrow>
   openNewNote st \<Longrightarrow> openFile h file = Inl e \<Longrightarrow>
   concat (processDroppedUrl st h url)
     = [SetProcessingCount 1, Fetch (js ''https://api.allorigins.win/get?url='' @ enc),
        VaultCreate (getNotePath h st (sanitizeFileName_ext title @ js ''.md''))
          (renderTemplate st url title),
        OpenFile file]
       @ onError url e @ onFinally"
  by (simp add: processDroppedUrl_def afterFetch_def afterCreate_def afterOpen_def Let_def)

text \<open>
  Claim C3, as the code has it. An \<^verbatim>\<open>Error\<close> whose message holds \<^verbatim>\<open>already exists\<close> gets
  one notice of 10000 ms whose text names the dropped URL; every other thrown value gets
  the generic notice of default duration and a \<^verbatim>\<open>console.error\<close> record. Whichever step
  of the pipeline throws (encoding, fetch, title, creation, opening), the run goes on
  with that handler and then the \<^verbatim>\<open>finally\<close> block.
\<close>

theorem onError_notifications:
  "(isAlreadyExists e \<longrightarrow>
      onError url e = [Notice (js ''URL: '' @ url @ js ''\<newline>Error: Note with this title already exists'')
                (Some 10000)] \<and>
      js_includes (js ''URL: '' @ url @ js ''\<newline>Error: Note with this title already exists'') url) \<and>
   (\<not> isAlreadyExists e \<longrightarrow>
      onError url e = [Notice (js ''Error processing URL. Please try again.'') None,
                ConsoleError (js ''Error processing URL:'') e]) \<and>
   (encodeURIComponent url = Inl e \<longrightarrow>
      concat (processDroppedUrl st h url) = SetProcessingCount 1 # onError url e @ onFinally) \<and>
   (encodeURIComponent url = Inr enc \<longrightarrow>
    proxyContents h (js ''https://api.allorigins.win/get?url='' @ enc) = Inl e \<longrightarrow>
      concat (processDroppedUrl st h url)
        = [SetProcessingCount 1, Fetch (js ''https://api.allorigins.win/get?url='' @ enc)]
          @ onError url e @ onFinally) \<and>
   (encodeURIComponent url = Inr enc \<longrightarrow>
    proxyContents h (js ''https://api.allorigins.win/get?url='' @ enc) = Inr html \<longrightarrow>
    resolveTitle h url html = Inl e \<longrightarrow>
      concat (processDroppedUrl st h url)
        = [SetProcessingCount 1, Fetch (js ''https://api.allorigins.win/get?url='' @ enc)]
          @ onError url e @ onFinally) \<and>
   (encodeURIComponent url = Inr enc \<longrightarrow>
    proxyContents h (js ''https://api.allorigins.win/get?url='' @ enc) = Inr html \<longrightarrow>
    resolveTitle h url html = Inr title \<longrightarrow>
    vaultCreate h (getNotePath h st (sanitizeFileName_ext title @ js ''.md''))
      (renderTemplate st url title) = Inl e \<longrightarrow>
      concat (processDroppedUrl st h url)
        = [SetProcessingCount 1, Fetch (js ''https://api.allorigins.win/get?url='' @ enc),
           VaultCreate (getNotePath h st (sanitizeFileName_ext title @ js ''.md''))
             (renderTemplate st url title)]
          @ onError url e @ onFinally) \<and>
   (encodeURIComponent url = Inr enc \<longrightarrow>
    proxyContents h (js ''https://api.allorigins.win/get?url='' @ enc) = Inr html \<longrightarrow>
    resolveTitle h url html = Inr title \<longrightarrow>
    vaultCreate h (getNotePath h st (sanitizeFileName_ext title @ js ''.md''))
      (renderTemplate st url title) = Inr (Some file) \<longrightarrow>
    openNewNote st \<longrightarrow> openFile h file = Inl e \<longrightarrow>
      concat (processDroppedUrl st h url)
        = [SetProcessingCount 1, Fetch (js ''https://api.allorigins.win/get?url='' @ enc),
           VaultCreate (getNotePath h st (sanitizeFileName_ext title @ js ''.md''))
             (renderTemplate st url title),
           OpenFile file]
          @ onError url e @ onFinally)"
proof (intro conjI impI)
  assume "isAlreadyExists e"
  then show "onError url e =
      [Notice (js ''URL: '' @ url @ js ''\<newline>Error: Note with this title already exists'') (Some 10000)]"
    by (rule onError_exists)
next
  show "js_includes (js ''URL: '' @ url @ js ''\<newline>Error: Note with this title already exists'') url"
    by (rule js_includes_middle)
next
  assume "\<not> isAlreadyExists e"
  then show "onError url e = [Notice (js ''Error processing URL. Please try again.'') None,
      ConsoleError (js ''Error processing URL:'') e]"
    by (rule onError_other)
qed (erule run_encode_fails run_fetch_fails run_title_fails run_create_fails run_open_fails;
     assumption)+


lemmas run_eval = processDroppedUrl_def afterFetch_def afterCreate_def afterOpen_def
  onError_def onFinally_def isAlreadyExists_def js_includes_def resolveTitle_def
  fallbackTitle_def pop_def getNotePath_def renderTemplate_def replace_def Let_def

lemma zed_exists_run:
  "concat (processDroppedUrl DEFAULT_SETTINGS host_exists (js ''https://example.com/zed''))
     = [SetProcessingCount 1,
        Fetch (js ''https://api.allorigins.win/get?url=https%3A%2F%2Fexample.com%2Fzed''),
        VaultCreate (js ''zed.md'')
          (js ''---\<newline>url: https://example.com/zed\<newline>---\<newline>\<newline># Zed\<newline>\<newline>''),
        Notice (js ''URL: https://example.com/zed\<newline>Error: Note with this title already exists'')
          (Some 10000),
        SetProcessingCount (- 1)]"
  by (simp add: run_eval host_eval js_eval)

text \<open>
  The theorem at a run whose note exists already, and at the error of a failed fetch.
\<close>

theorem onError_notifications_witness:
  "isAlreadyExists (ErrorObj (js ''File already exists.'')) \<and>
   encodeURIComponent (js ''https://example.com/zed'') = Inr (js ''https%3A%2F%2Fexample.com%2Fzed'') \<and>
   proxyContents host_exists (js ''https://api.allorigins.win/get?url=https%3A%2F%2Fexample.com%2Fzed'')
     = Inr (js ''<title>Zed</title>'') \<and>
   resolveTitle host_exists (js ''https://example.com/zed'') (js ''<title>Zed</title>'') = Inr (js ''Zed'') \<and>
   vaultCreate host_exists (js ''zed.md'')
     (js ''---\<newline>url: https://example.com/zed\<newline>---\<newline>\<newline># Zed\<newline>\<newline>'')
     = Inl (ErrorObj (js ''File already exists.'')) \<and>
   concat (processDroppedUrl DEFAULT_SETTINGS host_exists (js ''https://example.com/zed''))
     = [SetProcessingCount 1,
        Fetch (js ''https://api.allorigins.win/get?url=https%3A%2F%2Fexample.com%2Fzed''),
        VaultCreate (js ''zed.md'')
          (js ''---\<newline>url: https://example.com/zed\<newline>---\<newline>\<newline># Zed\<newline>\<newline>''),
        Notice (js ''URL: https://example.com/zed\<newline>Error: Note with this title already exists'')
          (Some 10000),
        SetProcessingCount (- 1)] \<and>
   js_includes (js ''URL: https://example.com/zed\<newline>Error: Note with this title already exists'')
     (js ''https://example.com/zed'') \<and>
   \<not> isAlreadyExists (ErrorObj (js ''Failed to fetch'')) \<and>
   onError (js ''https://example.com/zed'') (ErrorObj (js ''Failed to fetch''))
     = [Notice (js ''Error processing URL. Please try again.'') None,
        ConsoleError (js ''Error processing URL:'') (ErrorObj (js ''Failed to fetch''))]"
proof -
  let ?url = "js ''https://example.com/zed''"
  let ?e = "ErrorObj (js ''File already exists.'')"
  let ?html = "js ''<title>Zed</title>''"
  let ?path = "getNotePath host_exists DEFAULT_SETTINGS (sanitizeFileName_ext (js ''Zed'') @ js ''.md'')"
  let ?content = "renderTemplate DEFAULT_SETTINGS ?url (js ''Zed'')"
  have 1: "isAlreadyExists ?e"
    by (simp add: isAlreadyExists_def js_includes_def js_def)
  have 2: "\<not> isAlreadyExists (ErrorObj (js ''Failed to fetch''))"
    by (simp add: isAlreadyExists_def js_includes_def js_def)
  let ?enc = "js ''https%3A%2F%2Fexample.com%2Fzed''"
  have h1: "encodeURIComponent ?url = Inr ?enc"
    by (simp add: js_eval)
  have h2: "proxyContents host_exists (js ''https://api.allorigins.win/get?url='' @ ?enc) = Inr ?html"
    by (simp add: host_eval)
  have h3: "resolveTitle host_exists ?url ?html = Inr (js ''Zed'')"
    by (simp add: resolveTitle_def host_eval js_def)
  have h4: "vaultCreate host_exists ?path ?content = Inl ?e"
    by (simp add: host_eval)
  have p: "?path = js ''zed.md''"
    by (simp add: getNotePath_def host_eval js_eval)
  have c: "?content = js ''---\<newline>url: https://example.com/zed\<newline>---\<newline>\<newline># Zed\<newline>\<newline>''"
    by (simp add: renderTemplate_def replace_def DEFAULT_SETTINGS_def js_def)
  have r: "js ''https://api.allorigins.win/get?url='' @ ?enc
      = js ''https://api.allorigins.win/get?url=https%3A%2F%2Fexample.com%2Fzed''"
    by (simp add: js_def)
  have m: "js ''URL: '' @ ?url @ js ''\<newline>Error: Note with this title already exists''
     = js ''URL: https://example.com/zed\<newline>Error: Note with this title already exists''"
    by (simp add: js_def)
  note inst = onError_notifications [where e = ?e and url = ?url and h = host_exists
      and st = DEFAULT_SETTINGS and enc = ?enc and html = ?html and title = "js ''Zed''"]
  have a: "onError ?url ?e
     = [Notice (js ''URL: https://example.com/zed\<newline>Error: Note with this title already exists'')
          (Some 10000)]"
    and b: "js_includes (js ''URL: https://example.com/zed\<newline>Error: Note with this title already exists'') ?url"
    using inst 1 unfolding m by blast+
  have "concat (processDroppedUrl DEFAULT_SETTINGS host_exists ?url)
     = [SetProcessingCount 1, Fetch (js ''https://api.allorigins.win/get?url='' @ ?enc),
        VaultCreate ?path ?content] @ onError ?url ?e @ onFinally"
    using inst h1 h2 h3 h4 by blast
  then have t: "concat (processDroppedUrl DEFAULT_SETTINGS host_exists ?url)
     = [SetProcessingCount 1,
        Fetch (js ''https://api.allorigins.win/get?url=https%3A%2F%2Fexample.com%2Fzed''),
        VaultCreate (js ''zed.md'')
          (js ''---\<newline>url: https://example.com/zed\<newline>---\<newline>\<newline># Zed\<newline>\<newline>''),
        Notice (js ''URL: https://example.com/zed\<newline>Error: Note with this title already exists'')
          (Some 10000),
        SetProcessingCount (- 1)]"
    unfolding p c r a by (simp add: onFinally_def)
  have "onError ?url (ErrorObj (js ''Failed to fetch''))
     = [Notice (js ''Error processing URL. Please try again.'') None,
        ConsoleError (js ''Error processing URL:'') (ErrorObj (js ''Failed to fetch''))]"
    using onError_notifications [where e = "ErrorObj (js ''Failed to fetch'')" and url = ?url] 2
    by blast
  then show ?thesis
    using 1 2 h1 h2 h3 h4 t b unfolding p c r by blast
qed

text \<open>
  Claim C3 as stated fails: the page is titled \<^verbatim>\<open>Zed\<close>, the note \<^verbatim>\<open>zed.md\<close> exists, and
  the notice does not contain the title.
\<close>

theorem onError_title_counterexample:
  "resolveTitle host_exists (js ''https://example.com/zed'') (js ''<title>Zed</title>'') = Inr (js ''Zed'') \<and>
   concat (processDroppedUrl DEFAULT_SETTINGS host_exists (js ''https://example.com/zed''))
     = [SetProcessingCount 1,
        Fetch (js ''https://api.allorigins.win/get?url=https%3A%2F%2Fexample.com%2Fzed''),
        VaultCreate (js ''zed.md'')
          (js ''---\<newline>url: https://example.com/zed\<newline>---\<newline>\<newline># Zed\<newline>\<newline>''),
        Notice (js ''URL: https://example.com/zed\<newline>Error: Note with this title already exists'')
          (Some 10000),
        SetProcessingCount (- 1)] \<and>
   \<not> js_includes (js ''URL: https://example.com/zed\<newline>Error: Note with this title already exists'')
     (js ''Zed'')"
proof -
  have "resolveTitle host_exists (js ''https://example.com/zed'') (js ''<title>Zed</title>'') = Inr (js ''Zed'')"
    by (simp add: resolveTitle_def host_eval js_def)
  moreover have "\<not> js_includes (js ''URL: https://example.com/zed\<newline>Error: Note with this title already exists'')
     (js ''Zed'')"
    by (simp add: js_includes_def js_def)
  ultimately show ?thesis using zed_exists_run by blast
qed


section \<open>Properties of the in-flight counter\<close>

lemma applyEffect_shift: "applyEffect n e = n + applyEffect 0 e"
  by (cases e) simp_all

lemma foldl_applyEffect: "foldl applyEffect n seg = n + delta seg"
proof (induction seg arbitrary: n)
  case Nil
  show ?case by (simp add: delta_def)
next
  case (Cons e seg)
  have "foldl applyEffect n (e # seg) = foldl applyEffect (applyEffect n e) seg"
    by simp
  also have "\<dots> = applyEffect n e + delta seg"
    by (rule Cons)
  also have "\<dots> = n + (applyEffect 0 e + delta seg)"
    using applyEffect_shift [of n e] by simp
  also have "applyEffect 0 e + delta seg = foldl applyEffect (applyEffect 0 e) seg"
    by (rule Cons [symmetric])
  also have "\<dots> = delta (e # seg)"
    by (simp add: delta_def)
  finally show ?case .
qed

lemma delta_append: "delta (a @ b) = delta a + delta b"
proof -
  have "delta (a @ b) = foldl applyEffect (foldl applyEffect 0 a) b"
    by (simp add: delta_def)
  also have "\<dots> = foldl applyEffect 0 a + delta b"
    by (rule foldl_applyEffect)
  also have "\<dots> = delta a + delta b"
    by (simp only: delta_def)
  finally show ?thesis .
qed

lemma delta_Cons: "delta (e # seg) = applyEffect 0 e + delta seg"
proof -
  have "delta (e # seg) = foldl applyEffect (applyEffect 0 e) seg"
    by (simp add: delta_def)
  then show ?thesis by (simp only: foldl_applyEffect)
qed

lemma delta_Nil [simp]: "delta [] = 0"
  by (simp add: delta_def)

lemma delta_onError [simp]: "delta (onError url e) = 0"
  by (simp add: onError_def delta_def)

lemma delta_onFinally [simp]: "delta onFinally = - 1"
  by (simp add: onFinally_def delta_def)

lemma settles_afterOpen: "settles (afterOpen h url filePath f) \<and> afterOpen h url filePath f \<noteq> []"
  by (simp add: afterOpen_def delta_append delta_Cons split: sum.splits)

lemma settles_afterCreate:
  "settles (afterCreate st h url filePath content) \<and> afterCreate st h url filePath content \<noteq> []"
proof (cases "vaultCreate h filePath content")
  case (Inl e)
  then show ?thesis by (simp add: afterCreate_def delta_append)
next
  case (Inr newFile)
  show ?thesis
  proof (cases "if openNewNote st then newFile else None")
    case None
    with Inr show ?thesis by (simp add: afterCreate_def delta_Cons)
  next
    case (Some f)
    obtain seg rest where sr: "afterOpen h url filePath f = seg # rest"
      using settles_afterOpen [of h url filePath f] by (cases "afterOpen h url filePath f") auto
    have "settles (seg # rest)" using settles_afterOpen [of h url filePath f] sr by simp
    then have "settles ([OpenFile f] # seg # rest)" by (simp add: delta_def)
    with Inr Some sr show ?thesis by (simp add: afterCreate_def)
  qed
qed

lemma settles_afterFetch:
  "settles (afterFetch st h url request) \<and> afterFetch st h url request \<noteq> []"
proof (cases "proxyContents h request")
  case (Inl e)
  then show ?thesis by (simp add: afterFetch_def delta_append)
next
  case (Inr html)
  show ?thesis
  proof (cases "resolveTitle h url html")
    case (Inl e)
    with Inr show ?thesis by (simp add: afterFetch_def delta_append)
  next
    case (Inr title)
    let ?p = "getNotePath h st (sanitizeFileName_ext title @ js ''.md'')"
    let ?c = "renderTemplate st url title"
    obtain seg rest where sr: "afterCreate st h url ?p ?c = seg # rest"
      using settles_afterCreate [of st h url ?p ?c] by (cases "afterCreate st h url ?p ?c") auto
    have "settles (seg # rest)" using settles_afterCreate [of st h url ?p ?c] sr by simp
    then have "settles ([VaultCreate ?p ?c] # seg # rest)" by (simp add: delta_def)
    with \<open>proxyContents h request = Inr html\<close> Inr sr show ?thesis
      by (simp add: afterFetch_def Let_def)
  qed
qed

lemma run_shape:
  "\<exists>seg rest. processDroppedUrl st h url = seg # rest \<and>
     ((rest = [] \<and> delta seg = 0 \<and> (\<exists>e. encodeURIComponent url = Inl e)) \<or>
      (rest \<noteq> [] \<and> delta seg = 1 \<and> settles rest \<and> (\<exists>enc. encodeURIComponent url = Inr enc)))"
proof (cases "encodeURIComponent url")
  case (Inl e)
  then show ?thesis by (simp add: processDroppedUrl_def delta_append delta_Cons)
next
  case (Inr enc)
  then show ?thesis
    using settles_afterFetch [of st h url "js ''https://api.allorigins.win/get?url='' @ enc"]
    by (simp add: processDroppedUrl_def Let_def delta_def)
qed


lemma ends_prepend:
  assumes "xs \<noteq> [] \<and> last xs = SetProcessingCount (- 1) \<and> (\<forall>e\<in>set (butlast xs). \<not> touchesCount e)"
    and "\<not> touchesCount x"
  shows "x # xs \<noteq> [] \<and> last (x # xs) = SetProcessingCount (- 1) \<and>
         (\<forall>e\<in>set (butlast (x # xs)). \<not> touchesCount e)"
  using assms by auto

lemma ends_onError:
  "onError url e @ onFinally \<noteq> [] \<and> last (onError url e @ onFinally) = SetProcessingCount (- 1) \<and>
   (\<forall>x\<in>set (butlast (onError url e @ onFinally)). \<not> touchesCount x)"
  by (simp add: onError_def onFinally_def butlast_append)

lemma ends_afterOpen:
  "concat (afterOpen h url filePath f) \<noteq> [] \<and>
   last (concat (afterOpen h url filePath f)) = SetProcessingCount (- 1) \<and>
   (\<forall>x\<in>set (butlast (concat (afterOpen h url filePath f))). \<not> touchesCount x)"
proof (cases "openFile h f")
  case (Inl e)
  then show ?thesis using ends_onError [of url e] by (simp add: afterOpen_def)
next
  case (Inr u)
  then show ?thesis by (simp add: afterOpen_def onFinally_def)
qed

lemma ends_afterCreate:
  "concat (afterCreate st h url filePath content) \<noteq> [] \<and>
   last (concat (afterCreate st h url filePath content)) = SetProcessingCount (- 1) \<and>
   (\<forall>x\<in>set (butlast (concat (afterCreate st h url filePath content))). \<not> touchesCount x)"
proof (cases "vaultCreate h filePath content")
  case (Inl e)
  then show ?thesis using ends_onError [of url e] by (simp add: afterCreate_def)
next
  case (Inr newFile)
  show ?thesis
  proof (cases "if openNewNote st then newFile else None")
    case None
    with Inr show ?thesis by (simp add: afterCreate_def onFinally_def)
  next
    case (Some f)
    have "concat (afterCreate st h url filePath content) = OpenFile f # concat (afterOpen h url filePath f)"
      using Inr Some by (simp add: afterCreate_def)
    then show ?thesis
      using ends_prepend [OF ends_afterOpen [of h url filePath f], of "OpenFile f"] by simp
  qed
qed

lemma ends_afterFetch:
  "concat (afterFetch st h url request) \<noteq> [] \<and>
   last (concat (afterFetch st h url request)) = SetProcessingCount (- 1) \<and>
   (\<forall>x\<in>set (butlast (concat (afterFetch st h url request))). \<not> touchesCount x)"
proof (cases "proxyContents h request")
  case (Inl e)
  then show ?thesis using ends_onError [of url e] by (simp add: afterFetch_def)
next
  case (Inr html)
  show ?thesis
  proof (cases "resolveTitle h url html")
    case (Inl e)
    with Inr show ?thesis using ends_onError [of url e] by (simp add: afterFetch_def)
  next
    case (Inr title)
    let ?p = "getNotePath h st (sanitizeFileName_ext title @ js ''.md'')"
    let ?c = "renderTemplate st url title"
    have "concat (afterFetch st h url request) = VaultCreate ?p ?c # concat (afterCreate st h url ?p ?c)"
      using \<open>proxyContents h request = Inr html\<close> Inr by (simp add: afterFetch_def Let_def)
    then show ?thesis
      using ends_prepend [OF ends_afterCreate [of st h url ?p ?c], of "VaultCreate ?p ?c"] by simp
  qed
qed

lemma run_once_each:
  "\<exists>mid. concat (processDroppedUrl st h url) = SetProcessingCount 1 # mid @ [SetProcessingCount (- 1)] \<and>
         \<not> (\<exists>e\<in>set mid. touchesCount e)"
proof -
  have "\<exists>xs. concat (processDroppedUrl st h url) = SetProcessingCount 1 # xs \<and>
        xs \<noteq> [] \<and> last xs = SetProcessingCount (- 1) \<and> (\<forall>e\<in>set (butlast xs). \<not> touchesCount e)"
  proof (cases "encodeURIComponent url")
    case (Inl e)
    then show ?thesis using ends_onError [of url e] by (simp add: processDroppedUrl_def)
  next
    case (Inr enc)
    let ?r = "js ''https://api.allorigins.win/get?url='' @ enc"
    have "concat (processDroppedUrl st h url)
        = SetProcessingCount 1 # Fetch ?r # concat (afterFetch st h url ?r)"
      using Inr by (simp add: processDroppedUrl_def Let_def)
    then show ?thesis
      using ends_prepend [OF ends_afterFetch [of st h url ?r], of "Fetch ?r"] by simp
  qed
  then obtain xs where xs: "concat (processDroppedUrl st h url) = SetProcessingCount 1 # xs"
    "xs \<noteq> []" "last xs = SetProcessingCount (- 1)" "\<forall>e\<in>set (butlast xs). \<not> touchesCount e"
    by blast
  have "xs = butlast xs @ [SetProcessingCount (- 1)]"
    using xs(2,3) by (metis append_butlast_last_id)
  with xs(1,4) show ?thesis by metis
qed

lemma runSegment_fields [simp]:
  "pending (runSegment seg c) = pending c"
  "processingCount (runSegment seg c) = processingCount c + delta seg"
  "trace (runSegment seg c) = trace c @ seg"
  by (simp_all add: runSegment_def foldl_applyEffect)

lemma inFlight_snoc:
  "inFlight (c\<lparr>pending := pending c @ [run]\<rparr>) = inFlight c + (if run = [] then 0 else 1)"
  by (simp add: inFlight_def)

lemma startRun_step:
  "pending (startRun st c (h, url)) = pending c @ [tl (processDroppedUrl st h url)] \<and>
   settles (tl (processDroppedUrl st h url)) \<and>
   processingCount (startRun st c (h, url)) - int (inFlight (startRun st c (h, url)))
     = processingCount c - int (inFlight c) \<and>
   ((\<exists>enc. encodeURIComponent url = Inr enc) \<longrightarrow>
      processingCount (startRun st c (h, url)) = processingCount c + 1)"
proof -
  obtain seg rest where sr: "processDroppedUrl st h url = seg # rest"
    and alt: "(rest = [] \<and> delta seg = 0 \<and> (\<exists>e. encodeURIComponent url = Inl e)) \<or>
      (rest \<noteq> [] \<and> delta seg = 1 \<and> settles rest \<and> (\<exists>enc. encodeURIComponent url = Inr enc))"
    using run_shape [of st h url] by blast
  have p: "pending (startRun st c (h, url)) = pending c @ [rest]"
    by (simp add: startRun_def sr)
  have n: "processingCount (startRun st c (h, url)) = processingCount c + delta seg"
    by (simp add: startRun_def sr)
  have f: "inFlight (startRun st c (h, url)) = inFlight c + (if rest = [] then 0 else 1)"
    by (simp add: inFlight_def p)
  from alt show ?thesis
  proof
    assume "rest = [] \<and> delta seg = 0 \<and> (\<exists>e. encodeURIComponent url = Inl e)"
    then show ?thesis using p n f sr by auto
  next
    assume "rest \<noteq> [] \<and> delta seg = 1 \<and> settles rest \<and> (\<exists>enc. encodeURIComponent url = Inr enc)"
    then show ?thesis using p n f sr by auto
  qed
qed


lemma foldl_startRun:
  "((\<forall>run\<in>set (pending c). settles run) \<longrightarrow>
      (\<forall>run\<in>set (pending (foldl (startRun st) c pairs)). settles run)) \<and>
   processingCount (foldl (startRun st) c pairs) - int (inFlight (foldl (startRun st) c pairs))
     = processingCount c - int (inFlight c) \<and>
   ((\<forall>hu\<in>set pairs. \<exists>enc. encodeURIComponent (snd hu) = Inr enc) \<longrightarrow>
      processingCount (foldl (startRun st) c pairs) = processingCount c + int (length pairs))"
proof (induction pairs arbitrary: c)
  case Nil
  show ?case by simp
next
  case (Cons hu pairs)
  obtain h url where hu: "hu = (h, url)" by (cases hu)
  let ?c = "startRun st c (h, url)"
  note s = startRun_step [of st c h url]
  note ih = Cons [of ?c]
  have a: "(\<forall>run\<in>set (pending c). settles run) \<longrightarrow> (\<forall>run\<in>set (pending ?c). settles run)"
    using s by auto
  have "foldl (startRun st) c (hu # pairs) = foldl (startRun st) ?c pairs"
    by (simp add: hu)
  moreover have "(\<forall>x\<in>set (hu # pairs). \<exists>enc. encodeURIComponent (snd x) = Inr enc) \<longrightarrow>
      processingCount (foldl (startRun st) ?c pairs) = processingCount c + int (length (hu # pairs))"
  proof
    assume all: "\<forall>x\<in>set (hu # pairs). \<exists>enc. encodeURIComponent (snd x) = Inr enc"
    then have "\<exists>enc. encodeURIComponent url = Inr enc" by (simp add: hu)
    then have "processingCount ?c = processingCount c + 1" using s by blast
    moreover have "processingCount (foldl (startRun st) ?c pairs) = processingCount ?c + int (length pairs)"
      using ih all by simp
    ultimately show "processingCount (foldl (startRun st) ?c pairs)
        = processingCount c + int (length (hu # pairs))" by simp
  qed
  moreover have "processingCount (foldl (startRun st) ?c pairs) - int (inFlight (foldl (startRun st) ?c pairs))
     = processingCount c - int (inFlight c)"
    using ih s by simp
  moreover have "(\<forall>run\<in>set (pending c). settles run) \<longrightarrow>
      (\<forall>run\<in>set (pending (foldl (startRun st) ?c pairs)). settles run)"
    using a ih by blast
  ultimately show ?case by simp
qed

lemma inFlight_runSegment [simp]: "inFlight (runSegment seg c) = inFlight c"
  by (simp add: inFlight_def)

lemma delta_ui [simp]: "delta [PreventDefault, StopPropagation, SetIsDragging False] = 0"
  by (simp add: delta_def)

lemma handleDrop_keeps:
  "((\<forall>run\<in>set (pending c). settles run) \<longrightarrow>
      (\<forall>run\<in>set (pending (handleDrop st hosts payload c)). settles run)) \<and>
   processingCount (handleDrop st hosts payload c) - int (inFlight (handleDrop st hosts payload c))
     = processingCount c - int (inFlight c)"
  using foldl_startRun [of "runSegment [PreventDefault, StopPropagation, SetIsDragging False] c" st
      "zip (map hosts [0..<length (droppedUrls payload)]) (droppedUrls payload)"]
  by (simp add: handleDrop_def Let_def)

lemma handleDrop_counts:
  assumes "\<forall>i<length (droppedUrls payload). \<exists>enc.
      encodeURIComponent (droppedUrls payload ! i) = Inr enc"
  shows "processingCount (handleDrop st hosts payload c)
     = processingCount c + int (length (droppedUrls payload))"
proof -
  let ?urls = "droppedUrls payload"
  let ?pairs = "zip (map hosts [0..<length ?urls]) ?urls"
  have "\<exists>enc. encodeURIComponent (snd hu) = Inr enc" if "hu \<in> set ?pairs" for hu
  proof -
    from that obtain i where i: "i < length ?pairs" "hu = ?pairs ! i"
      by (metis in_set_conv_nth)
    then have "i < length ?urls" by simp
    moreover from this i have "hu = (hosts i, ?urls ! i)" by simp
    ultimately show ?thesis using assms by simp
  qed
  then have "processingCount (foldl (startRun st)
        (runSegment [PreventDefault, StopPropagation, SetIsDragging False] c) ?pairs)
      = processingCount (runSegment [PreventDefault, StopPropagation, SetIsDragging False] c)
        + int (length ?pairs)"
    using foldl_startRun [of "runSegment [PreventDefault, StopPropagation, SetIsDragging False] c" st ?pairs]
    by blast
  then show ?thesis by (simp add: handleDrop_def Let_def)
qed

lemma filter_update_length:
  "i < length xs \<Longrightarrow>
   int (length (filter P (xs[i := y])))
     = int (length (filter P xs)) - (if P (xs ! i) then 1 else 0) + (if P y then 1 else 0)"
proof (induction xs arbitrary: i)
  case Nil
  then show ?case by simp
next
  case (Cons x xs)
  show ?case
  proof (cases i)
    case 0
    then show ?thesis by simp
  next
    case (Suc j)
    with Cons.prems have "j < length xs" by simp
    from Cons.IH [OF this] Suc show ?thesis by (auto split: if_splits)
  qed
qed

lemma settles_Cons:
  "settles (seg # rest) \<Longrightarrow>
   settles rest \<and> delta seg = (if rest = [] then - 1 else 0)"
  by (cases rest) simp_all

lemma resume_keeps:
  assumes "i < length (pending c)" and "pending c ! i \<noteq> []"
    and "\<forall>run\<in>set (pending c). settles run"
  shows "(\<forall>run\<in>set (pending (resumeRun i c)). settles run) \<and>
    processingCount (resumeRun i c) - int (inFlight (resumeRun i c))
      = processingCount c - int (inFlight c)"
proof -
  obtain seg rest where sr: "pending c ! i = seg # rest"
    using assms(2) by (cases "pending c ! i") auto
  then have r: "resumeRun i c = (runSegment seg c)\<lparr>pending := (pending c)[i := rest]\<rparr>"
    by (simp add: resumeRun_def)
  have "settles (seg # rest)" using assms(1,3) sr by (metis nth_mem)
  then have srest: "settles rest" and d: "delta seg = (if rest = [] then - 1 else 0)"
    using settles_Cons by blast+
  have 1: "\<forall>run\<in>set ((pending c)[i := rest]). settles run"
    using assms(3) srest by (metis insert_iff set_update_subset_insert subsetD)
  have "int (length (filter (\<lambda>run. run \<noteq> []) ((pending c)[i := rest])))
     = int (length (filter (\<lambda>run. run \<noteq> []) (pending c)))
       - (if pending c ! i \<noteq> [] then 1 else 0) + (if rest \<noteq> [] then 1 else 0)"
    using assms(1) by (rule filter_update_length)
  then have 2: "int (inFlight ((runSegment seg c)\<lparr>pending := (pending c)[i := rest]\<rparr>))
     = int (inFlight c) - 1 + (if rest \<noteq> [] then 1 else 0)"
    using sr by (simp add: inFlight_def)
  show ?thesis unfolding r using 1 2 d by simp
qed

lemma reachable_invariant:
  "reachable c \<Longrightarrow> (\<forall>run\<in>set (pending c). settles run) \<and> processingCount c = int (inFlight c)"
  unfolding reachable_def
proof (induction rule: rtranclp_induct)
  case base
  show ?case by (simp add: initial_def inFlight_def)
next
  case (step c c')
  from step(2) show ?case
  proof cases
    case (drop st hosts payload)
    then show ?thesis using handleDrop_keeps [of c st hosts payload] step.IH by simp
  next
    case (resume i)
    then show ?thesis using resume_keeps [of i c] step.IH by simp
  qed
qed


text \<open>
  Claim C6, as the code has it. Every run calls \<^verbatim>\<open>setProcessingCount\<close> exactly twice:
  plus one first, minus one last, whatever fails in between. In every reachable state
  the count is the number of runs that have not settled, so it is never negative and is
  zero once all have settled. A drop of \<open>N\<close> URLs raises the count by \<open>N\<close> when
  \<^verbatim>\<open>encodeURIComponent\<close> accepts each of them.
\<close>

theorem processingCount_tracks_runs:
  "(\<exists>mid. concat (processDroppedUrl st h url)
            = SetProcessingCount 1 # mid @ [SetProcessingCount (- 1)] \<and>
          \<not> (\<exists>e\<in>set mid. touchesCount e)) \<and>
   (reachable c \<longrightarrow>
      processingCount c = int (inFlight c) \<and> 0 \<le> processingCount c \<and>
      ((\<forall>run\<in>set (pending c). run = []) \<longrightarrow> processingCount c = 0)) \<and>
   ((\<forall>i<length (droppedUrls payload).
        \<exists>enc. encodeURIComponent (droppedUrls payload ! i) = Inr enc) \<longrightarrow>
      processingCount (handleDrop st hosts payload k)
        = processingCount k + int (length (droppedUrls payload)))"
proof (intro conjI impI)
  show "\<exists>mid. concat (processDroppedUrl st h url)
            = SetProcessingCount 1 # mid @ [SetProcessingCount (- 1)] \<and>
          \<not> (\<exists>e\<in>set mid. touchesCount e)"
    by (rule run_once_each)
next
  assume r: "reachable c"
  then show eq: "processingCount c = int (inFlight c)"
    using reachable_invariant by blast
  then show "0 \<le> processingCount c" by simp
  assume "\<forall>run\<in>set (pending c). run = []"
  then have "inFlight c = 0" by (simp add: inFlight_def filter_empty_conv)
  with eq show "processingCount c = 0" by simp
next
  assume "\<forall>i<length (droppedUrls payload).
        \<exists>enc. encodeURIComponent (droppedUrls payload ! i) = Inr enc"
  then show "processingCount (handleDrop st hosts payload k)
        = processingCount k + int (length (droppedUrls payload))"
    by (rule handleDrop_counts)
qed

lemma urls_two: "droppedUrls payload_two = [js ''https://example.com/a'', js ''https://example.com/b'']"
  by (simp add: droppedUrls_def payload_two_def js_eval)

lemma run_a:
  "processDroppedUrl DEFAULT_SETTINGS host_ok (js ''https://example.com/a'')
   = [[SetProcessingCount 1, Fetch (js ''https://api.allorigins.win/get?url=https%3A%2F%2Fexample.com%2Fa'')],
      [VaultCreate (js ''zed.md'')
         (js ''---\<newline>url: https://example.com/a\<newline>---\<newline>\<newline># Zed\<newline>\<newline>'')],
      [Notice (js ''Note created: zed.md'') None, SetProcessingCount (- 1)]]"
  by (simp add: run_eval host_eval js_eval)

lemma run_b:
  "processDroppedUrl DEFAULT_SETTINGS host_exists (js ''https://example.com/b'')
   = [[SetProcessingCount 1, Fetch (js ''https://api.allorigins.win/get?url=https%3A%2F%2Fexample.com%2Fb'')],
      [VaultCreate (js ''zed.md'')
         (js ''---\<newline>url: https://example.com/b\<newline>---\<newline>\<newline># Zed\<newline>\<newline>'')],
      [Notice (js ''URL: https://example.com/b\<newline>Error: Note with this title already exists'')
         (Some 10000),
       SetProcessingCount (- 1)]]"
  by (simp add: run_eval host_eval js_eval)

lemma resumeRun_fields:
  "pending c ! i = seg # rest \<Longrightarrow>
   pending (resumeRun i c) = (pending c)[i := rest] \<and>
   processingCount (resumeRun i c) = processingCount c + delta seg"
  by (simp add: resumeRun_def)

lemma drop_two:
  "pending (handleDrop DEFAULT_SETTINGS hosts_two payload_two initial)
     = [tl (processDroppedUrl DEFAULT_SETTINGS host_ok (js ''https://example.com/a'')),
        tl (processDroppedUrl DEFAULT_SETTINGS host_exists (js ''https://example.com/b''))]"
  by (simp add: handleDrop_def urls_two startRun_def run_a run_b hosts_two_def initial_def)

text \<open>
  The theorem at a drop of two URLs, the second of which fails because its note exists:
  the count is 2 after the drop, the runs finish out of order, and the count is 0 in
  the reachable state where both have settled.
\<close>

theorem processingCount_tracks_runs_witness:
  "droppedUrls payload_two = [js ''https://example.com/a'', js ''https://example.com/b''] \<and>
   encodeURIComponent (js ''https://example.com/a'') = Inr (js ''https%3A%2F%2Fexample.com%2Fa'') \<and>
   encodeURIComponent (js ''https://example.com/b'') = Inr (js ''https%3A%2F%2Fexample.com%2Fb'') \<and>
   processingCount (handleDrop DEFAULT_SETTINGS hosts_two payload_two initial) = 2 \<and>
   processingCount (resumeRun 1 (handleDrop DEFAULT_SETTINGS hosts_two payload_two initial)) = 2 \<and>
   processingCount (resumeRun 1 (resumeRun 1
      (handleDrop DEFAULT_SETTINGS hosts_two payload_two initial))) = 1 \<and>
   processingCount (resumeRun 0 (resumeRun 1 (resumeRun 1
      (handleDrop DEFAULT_SETTINGS hosts_two payload_two initial)))) = 1 \<and>
   reachable (resumeRun 0 (resumeRun 0 (resumeRun 1 (resumeRun 1
      (handleDrop DEFAULT_SETTINGS hosts_two payload_two initial))))) \<and>
   pending (resumeRun 0 (resumeRun 0 (resumeRun 1 (resumeRun 1
      (handleDrop DEFAULT_SETTINGS hosts_two payload_two initial))))) = [[], []] \<and>
   processingCount (resumeRun 0 (resumeRun 0 (resumeRun 1 (resumeRun 1
      (handleDrop DEFAULT_SETTINGS hosts_two payload_two initial))))) = 0"
proof -
  let ?c1 = "handleDrop DEFAULT_SETTINGS hosts_two payload_two initial"
  let ?c2 = "resumeRun 1 ?c1"
  let ?c3 = "resumeRun 1 ?c2"
  let ?c4 = "resumeRun 0 ?c3"
  let ?c5 = "resumeRun 0 ?c4"
  let ?a2 = "[VaultCreate (js ''zed.md'')
         (js ''---\<newline>url: https://example.com/a\<newline>---\<newline>\<newline># Zed\<newline>\<newline>'')]"
  let ?a3 = "[Notice (js ''Note created: zed.md'') None, SetProcessingCount (- 1)]"
  let ?b2 = "[VaultCreate (js ''zed.md'')
         (js ''---\<newline>url: https://example.com/b\<newline>---\<newline>\<newline># Zed\<newline>\<newline>'')]"
  let ?b3 = "[Notice (js ''URL: https://example.com/b\<newline>Error: Note with this title already exists'')
         (Some 10000), SetProcessingCount (- 1)]"
  have enc: "encodeURIComponent (js ''https://example.com/a'') = Inr (js ''https%3A%2F%2Fexample.com%2Fa'')"
    "encodeURIComponent (js ''https://example.com/b'') = Inr (js ''https%3A%2F%2Fexample.com%2Fb'')"
    by (simp_all add: js_eval)
  have hyp: "\<forall>i<length (droppedUrls payload_two).
      \<exists>enc. encodeURIComponent (droppedUrls payload_two ! i) = Inr enc"
    using enc by (simp add: urls_two less_Suc_eq numeral_2_eq_2)
  note inst = processingCount_tracks_runs
    [of DEFAULT_SETTINGS host_ok "[]" ?c5 payload_two hosts_two initial]
  have n1: "processingCount ?c1 = 2"
    using inst hyp urls_two by (simp add: initial_def)
  have p1: "pending ?c1 = [[?a2, ?a3], [?b2, ?b3]]"
    by (simp add: drop_two run_a run_b)
  have f2: "pending ?c2 = [[?a2, ?a3], [?b3]] \<and> processingCount ?c2 = 2"
    using resumeRun_fields [of ?c1 1 ?b2 "[?b3]"] p1 n1 by (simp add: delta_def)
  have f3: "pending ?c3 = [[?a2, ?a3], []] \<and> processingCount ?c3 = 1"
    using resumeRun_fields [of ?c2 1 ?b3 "[]"] f2 by (simp add: delta_def)
  have f4: "pending ?c4 = [[?a3], []] \<and> processingCount ?c4 = 1"
    using resumeRun_fields [of ?c3 0 ?a2 "[?a3]"] f3 by (simp add: delta_def)
  have f5: "pending ?c5 = [[], []]"
    using resumeRun_fields [of ?c4 0 ?a3 "[]"] f4 by simp
  have s1: "step initial ?c1" by (rule step.drop)
  have s2: "step ?c1 ?c2" by (rule step.resume) (use p1 in simp_all)
  have s3: "step ?c2 ?c3" by (rule step.resume) (use f2 in simp_all)
  have s4: "step ?c3 ?c4" by (rule step.resume) (use f3 in simp_all)
  have s5: "step ?c4 ?c5" by (rule step.resume) (use f4 in simp_all)
  have r5: "reachable ?c5"
    unfolding reachable_def using s1 s2 s3 s4 s5
    by (meson rtranclp.rtrancl_into_rtrancl rtranclp.rtrancl_refl)
  have n5: "processingCount ?c5 = 0"
    using inst r5 f5 by simp
  show ?thesis
    using urls_two enc n1 f2 f3 f4 r5 f5 n5 by simp
qed

lemma urls_bad_first:
  "droppedUrls payload_bad_first = [[55357], js ''https://example.com/b'']"
  by (simp add: droppedUrls_def payload_bad_first_def js_eval)

lemma run_bad:
  "processDroppedUrl DEFAULT_SETTINGS host_ok [55357]
   = [[SetProcessingCount 1,
       Notice (js ''Error processing URL. Please try again.'') None,
       ConsoleError (js ''Error processing URL:'') (ErrorObj (js ''URI malformed'')),
       SetProcessingCount (- 1)]]"
  by (simp add: run_eval host_eval js_eval)

lemma run_b_ok:
  "processDroppedUrl DEFAULT_SETTINGS host_ok (js ''https://example.com/b'')
   = [[SetProcessingCount 1, Fetch (js ''https://api.allorigins.win/get?url=https%3A%2F%2Fexample.com%2Fb'')],
      [VaultCreate (js ''zed.md'')
         (js ''---\<newline>url: https://example.com/b\<newline>---\<newline>\<newline># Zed\<newline>\<newline>'')],
      [Notice (js ''Note created: zed.md'') None, SetProcessingCount (- 1)]]"
  by (simp add: run_eval host_eval js_eval)

text \<open>
  Claim C6 as stated fails: two URLs are dropped, the first is refused by
  \<^verbatim>\<open>encodeURIComponent\<close>, so its run ends before the second starts. The count goes
  through 1, 0, 1 during the drop and is 1 after it; it never is 2.
\<close>

theorem processingCount_never_two_counterexample:
  "droppedUrls payload_bad_first = [[55357], js ''https://example.com/b''] \<and>
   encodeURIComponent [55357] = Inl (ErrorObj (js ''URI malformed'')) \<and>
   countHistory 0 (trace (handleDrop DEFAULT_SETTINGS hosts_ok payload_bad_first initial))
     = [0, 0, 0, 1, 1, 1, 0, 1, 1] \<and>
   processingCount (handleDrop DEFAULT_SETTINGS hosts_ok payload_bad_first initial) = 1 \<and>
   inFlight (handleDrop DEFAULT_SETTINGS hosts_ok payload_bad_first initial) = 1"
proof -
  have 1: "encodeURIComponent [55357] = Inl (ErrorObj (js ''URI malformed''))"
    by (simp add: js_eval)
  have 2: "countHistory 0 (trace (handleDrop DEFAULT_SETTINGS hosts_ok payload_bad_first initial))
     = [0, 0, 0, 1, 1, 1, 0, 1, 1] \<and>
   processingCount (handleDrop DEFAULT_SETTINGS hosts_ok payload_bad_first initial) = 1 \<and>
   inFlight (handleDrop DEFAULT_SETTINGS hosts_ok payload_bad_first initial) = 1"
    by (simp add: handleDrop_def urls_bad_first startRun_def run_bad run_b_ok hosts_ok_def
        initial_def inFlight_def delta_def)
  from urls_bad_first 1 2 show ?thesis by blast
qed

section \<open>Properties of the template renderer\<close>

text \<open>
  Claim C4 at a URL that holds \<^verbatim>\<open>$&\<close> and a title that holds \<^verbatim>\<open>$$$\<close>.
  \<^verbatim>\<open>String.prototype.replace\<close> reads dollar patterns in its replacement text, so the
  code puts the placeholder \<^verbatim>\<open>{{url}}\<close> back into the URL and drops one dollar sign of
  the title, where three literal substitutions give the URL and the title as they are.
\<close>

theorem renderTemplate_dollar_patterns:
  "renderTemplate DEFAULT_SETTINGS (js ''https://example.com/?q=$&page=2'') (js ''Earn $$$ fast'')
     = js ''---\<newline>url: https://example.com/?q={{url}}page=2\<newline>---\<newline>\<newline># Earn $$ fast\<newline>\<newline>'' \<and>
   spec_renderTemplate DEFAULT_SETTINGS (js ''https://example.com/?q=$&page=2'') (js ''Earn $$$ fast'')
     = js ''---\<newline>url: https://example.com/?q=$&page=2\<newline>---\<newline>\<newline># Earn $$$ fast\<newline>\<newline>''"
  by (simp add: renderTemplate_def spec_renderTemplate_def replace_def replace_literal_def
      DEFAULT_SETTINGS_def js_def)

text \<open>
  Claim C5 as stated fails: each placeholder occurs once in the default template, the
  page is titled \<^verbatim>\<open>{{url}}\<close>, the rendered note still holds the placeholder
  \<^verbatim>\<open>{{url}}\<close>, and rendering it again changes it.
\<close>

theorem renderTemplate_not_idempotent_counterexample:
  "occurrences (js ''{{frontmatterKey}}'') (template DEFAULT_SETTINGS) = 1 \<and>
   occurrences (js ''{{url}}'') (template DEFAULT_SETTINGS) = 1 \<and>
   occurrences (js ''{{title}}'') (template DEFAULT_SETTINGS) = 1 \<and>
   renderTemplate DEFAULT_SETTINGS (js ''https://example.com/a'') (js ''{{url}}'')
     = js ''---\<newline>url: https://example.com/a\<newline>---\<newline>\<newline># {{url}}\<newline>\<newline>'' \<and>
   js_includes
     (renderTemplate DEFAULT_SETTINGS (js ''https://example.com/a'') (js ''{{url}}''))
     (js ''{{url}}'') \<and>
   renderTemplate
     (DEFAULT_SETTINGS\<lparr> template :=
        renderTemplate DEFAULT_SETTINGS (js ''https://example.com/a'') (js ''{{url}}'') \<rparr>)
     (js ''https://example.com/a'') (js ''{{url}}'')
     = js ''---\<newline>url: https://example.com/a\<newline>---\<newline>\<newline># https://example.com/a\<newline>\<newline>'' \<and>
   renderTemplate
     (DEFAULT_SETTINGS\<lparr> template :=
        renderTemplate DEFAULT_SETTINGS (js ''https://example.com/a'') (js ''{{url}}'') \<rparr>)
     (js ''https://example.com/a'') (js ''{{url}}'')
     \<noteq> renderTemplate DEFAULT_SETTINGS (js ''https://example.com/a'') (js ''{{url}}'')"
  by (simp add: renderTemplate_def replace_def js_includes_def DEFAULT_SETTINGS_def js_def)


lemma getSubstitution_plain: "dollar \<notin> set r \<Longrightarrow> getSubstitution m p f r = r"
  by (induction m p f r rule: getSubstitution.induct) (auto simp: dollar_def)

lemma find_first_skip:
  assumes "lbrace \<notin> set t" and "pat \<noteq> []" and "hd pat = lbrace"
  shows "find_first pat (t @ rest) = map_option (\<lambda>(p, f). (t @ p, f)) (find_first pat rest)"
  using assms(1)
proof (induction t)
  case Nil
  show ?case by (cases "find_first pat rest") auto
next
  case (Cons c t)
  then have "c \<noteq> lbrace" by auto
  obtain pat' where pat: "pat = lbrace # pat'"
    using assms(2,3) by (cases pat) auto
  have "\<not> prefix pat (c # t @ rest)"
    using \<open>c \<noteq> lbrace\<close> pat by simp
  moreover have "find_first pat (t @ rest) = map_option (\<lambda>(p, f). (t @ p, f)) (find_first pat rest)"
    using Cons by simp
  ultimately show ?case by (cases "find_first pat rest") auto
qed

lemma find_first_here: "pat \<noteq> [] \<Longrightarrow> find_first pat (pat @ rest) = Some ([], rest)"
  by (cases pat) auto

lemma skip_key_url:
  "find_first (js ''{{frontmatterKey}}'') (js ''{{url}}'' @ rest)
   = map_option (\<lambda>(p, f). (js ''{{url}}'' @ p, f)) (find_first (js ''{{frontmatterKey}}'') rest)"
  by (cases "find_first (js ''{{frontmatterKey}}'') rest") (auto simp: js_def)

lemma skip_key_title:
  "find_first (js ''{{frontmatterKey}}'') (js ''{{title}}'' @ rest)
   = map_option (\<lambda>(p, f). (js ''{{title}}'' @ p, f)) (find_first (js ''{{frontmatterKey}}'') rest)"
  by (cases "find_first (js ''{{frontmatterKey}}'') rest") (auto simp: js_def)

lemma skip_url_key:
  "find_first (js ''{{url}}'') (js ''{{frontmatterKey}}'' @ rest)
   = map_option (\<lambda>(p, f). (js ''{{frontmatterKey}}'' @ p, f)) (find_first (js ''{{url}}'') rest)"
  by (cases "find_first (js ''{{url}}'') rest") (auto simp: js_def)

lemma skip_url_title:
  "find_first (js ''{{url}}'') (js ''{{title}}'' @ rest)
   = map_option (\<lambda>(p, f). (js ''{{title}}'' @ p, f)) (find_first (js ''{{url}}'') rest)"
  by (cases "find_first (js ''{{url}}'') rest") (auto simp: js_def)

lemma skip_title_key:
  "find_first (js ''{{title}}'') (js ''{{frontmatterKey}}'' @ rest)
   = map_option (\<lambda>(p, f). (js ''{{frontmatterKey}}'' @ p, f)) (find_first (js ''{{title}}'') rest)"
  by (cases "find_first (js ''{{title}}'') rest") (auto simp: js_def)

lemma skip_title_url:
  "find_first (js ''{{title}}'') (js ''{{url}}'' @ rest)
   = map_option (\<lambda>(p, f). (js ''{{url}}'' @ p, f)) (find_first (js ''{{title}}'') rest)"
  by (cases "find_first (js ''{{title}}'') rest") (auto simp: js_def)


lemma source_placeholder:
  "X \<in> {KeyPh, UrlPh, TitlePh} \<Longrightarrow> source X \<noteq> [] \<and> hd (source X) = lbrace"
  by (auto simp: js_def lbrace_def)

lemma skip_segment:
  assumes X: "X \<in> {KeyPh, UrlPh, TitlePh}" and ne: "seg \<noteq> X" and pl: "plain_segment seg"
    and vals: "lbrace \<notin> set key" "lbrace \<notin> set url" "lbrace \<notin> set title"
  shows "find_first (source X) (fill D key url title seg @ rest)
    = map_option (\<lambda>(p, f). (fill D key url title seg @ p, f)) (find_first (source X) rest)"
proof (cases "lbrace \<in> set (fill D key url title seg)")
  case False
  then show ?thesis
    using find_first_skip [of "fill D key url title seg" "source X" rest] source_placeholder [OF X]
    by simp
next
  case True
  then have src: "fill D key url title seg = source seg" and ph: "seg \<in> {KeyPh, UrlPh, TitlePh}"
    using pl vals by (cases seg; auto simp: fill_def split: if_splits)+
  show ?thesis unfolding src using X ph ne
    by (auto simp: skip_key_url skip_key_title skip_url_key skip_url_title
        skip_title_key skip_title_url)
qed

lemma skip_segments:
  assumes X: "X \<in> {KeyPh, UrlPh, TitlePh}"
    and vals: "lbrace \<notin> set key" "lbrace \<notin> set url" "lbrace \<notin> set title"
  shows "X \<notin> set segs \<Longrightarrow> list_all plain_segment segs \<Longrightarrow>
    find_first (source X) (concat (map (fill D key url title) segs) @ rest)
    = map_option (\<lambda>(p, f). (concat (map (fill D key url title) segs) @ p, f))
        (find_first (source X) rest)"
proof (induction segs)
  case Nil
  show ?case by (cases "find_first (source X) rest") auto
next
  case (Cons seg segs)
  let ?S = "concat (map (fill D key url title) segs)"
  have ih: "find_first (source X) (?S @ rest)
      = map_option (\<lambda>(p, f). (?S @ p, f)) (find_first (source X) rest)"
    using Cons by simp
  have "find_first (source X) (fill D key url title seg @ (?S @ rest))
      = map_option (\<lambda>(p, f). (fill D key url title seg @ p, f)) (find_first (source X) (?S @ rest))"
    using Cons.prems by (intro skip_segment [OF X _ _ vals]) auto
  then show ?case unfolding ih by (cases "find_first (source X) rest") auto
qed

lemma fill_insert_other: "seg \<noteq> X \<Longrightarrow> fill (insert X D) key url title seg = fill D key url title seg"
  by (simp add: fill_def)

lemma fill_insert_map:
  "X \<notin> set segs \<Longrightarrow> map (fill (insert X D) key url title) segs = map (fill D key url title) segs"
  by (induction segs) (auto simp: fill_insert_other)

lemma count_list_zero: "count_list xs x = 0 \<Longrightarrow> x \<notin> set xs"
  by (induction xs) (auto split: if_splits)

lemma replace_segments:
  assumes X: "X \<in> {KeyPh, UrlPh, TitlePh}" and nd: "X \<notin> D"
    and pl: "list_all plain_segment segs" and once: "count_list segs X \<le> 1"
    and vals: "plain_value key" "plain_value url" "plain_value title"
  shows "replace (source X) (rendered key url title X) (concat (map (fill D key url title) segs))
    = concat (map (fill (insert X D) key url title) segs)"
proof -
  have lb: "lbrace \<notin> set key" "lbrace \<notin> set url" "lbrace \<notin> set title"
    using vals by (simp_all add: plain_value_def)
  have dv: "dollar \<notin> set (rendered key url title X)"
    using X vals by (auto simp: plain_value_def)
  note src = source_placeholder [OF X]
  show ?thesis
  proof (cases "X \<in> set segs")
    case False
    have "find_first (source X) (concat (map (fill D key url title) segs) @ []) = None"
      using skip_segments [OF X lb False pl, of D "[]"] src by simp
    then have "replace (source X) (rendered key url title X) (concat (map (fill D key url title) segs))
      = concat (map (fill D key url title) segs)"
      by (simp add: replace_def)
    then show ?thesis by (simp only: fill_insert_map [OF False])
  next
    case True
    then obtain A B where ab: "segs = A @ X # B" "X \<notin> set A"
      by (meson split_list_first)
    have "count_list B X = 0" using once ab(1) by simp
    then have nb: "X \<notin> set B" by (rule count_list_zero)
    let ?SA = "concat (map (fill D key url title) A)"
    let ?SB = "concat (map (fill D key url title) B)"
    have plA: "list_all plain_segment A" using pl ab(1) by simp
    have S: "concat (map (fill D key url title) segs) = ?SA @ source X @ ?SB"
      using ab(1) nd by (simp add: fill_def)
    have "find_first (source X) (?SA @ (source X @ ?SB))
       = map_option (\<lambda>(p, f). (?SA @ p, f)) (find_first (source X) (source X @ ?SB))"
      by (rule skip_segments [OF X lb ab(2) plA])
    also have "\<dots> = Some (?SA, ?SB)"
      using src by (simp add: find_first_here)
    finally have "replace (source X) (rendered key url title X) (?SA @ source X @ ?SB)
       = ?SA @ rendered key url title X @ ?SB"
      using dv by (simp add: replace_def getSubstitution_plain)
    moreover have "concat (map (fill (insert X D) key url title) segs)
       = ?SA @ rendered key url title X @ ?SB"
      unfolding ab(1) by (simp add: fill_insert_map [OF ab(2)] fill_insert_map [OF nb] fill_def)
    ultimately show ?thesis using S by simp
  qed
qed


lemma fill_empty: "map (fill {} key url title) segs = map source segs"
  by (simp add: fill_def)

lemma fill_all:
  "map (fill {KeyPh, UrlPh, TitlePh} key url title) segs = map (rendered key url title) segs"
proof -
  have "fill {KeyPh, UrlPh, TitlePh} key url title seg = rendered key url title seg" for seg
    by (cases seg) (simp_all add: fill_def)
  then show ?thesis by simp
qed

lemma renderTemplate_segments:
  assumes "plain_template segs" and "template st = template_of segs"
    and "plain_value (frontmatterKey st)" and "plain_value url" and "plain_value title"
  shows "renderTemplate st url title = concat (map (rendered (frontmatterKey st) url title) segs)"
proof -
  let ?k = "frontmatterKey st"
  have pl: "list_all plain_segment segs"
    and c: "count_list segs KeyPh \<le> 1" "count_list segs UrlPh \<le> 1" "count_list segs TitlePh \<le> 1"
    using assms(1) by (simp_all add: plain_template_def)
  have t0: "template st = concat (map (fill {} ?k url title) segs)"
    using assms(2) by (simp add: template_of_def fill_empty)
  have 1: "replace (js ''{{frontmatterKey}}'') ?k (template st)
      = concat (map (fill {KeyPh} ?k url title) segs)"
    using replace_segments [of KeyPh "{}" segs ?k url title, OF _ _ pl c(1) assms(3,4,5)] t0
    by simp
  have 2: "replace (js ''{{url}}'') url (concat (map (fill {KeyPh} ?k url title) segs))
      = concat (map (fill {UrlPh, KeyPh} ?k url title) segs)"
    using replace_segments [of UrlPh "{KeyPh}" segs ?k url title, OF _ _ pl c(2) assms(3,4,5)]
    by simp
  have 3: "replace (js ''{{title}}'') title (concat (map (fill {UrlPh, KeyPh} ?k url title) segs))
      = concat (map (fill {TitlePh, UrlPh, KeyPh} ?k url title) segs)"
    using replace_segments [of TitlePh "{UrlPh, KeyPh}" segs ?k url title, OF _ _ pl c(3) assms(3,4,5)]
    by simp
  have "{TitlePh, UrlPh, KeyPh} = {KeyPh, UrlPh, TitlePh}" by auto
  then show ?thesis
    unfolding renderTemplate_def 1 2 3 by (simp add: fill_all)
qed

lemma rendered_no_brace:
  assumes "list_all plain_segment segs"
    and "lbrace \<notin> set key" "lbrace \<notin> set url" "lbrace \<notin> set title"
  shows "lbrace \<notin> set (concat (map (rendered key url title) segs))"
proof -
  have "lbrace \<notin> set (rendered key url title seg)" if "plain_segment seg" for seg
    using that assms(2,3,4) by (cases seg) simp_all
  then show ?thesis using assms(1) by (auto simp: list_all_iff)
qed

lemma find_first_no_brace:
  assumes "lbrace \<notin> set s" and "pat \<noteq> []" and "hd pat = lbrace"
  shows "find_first pat s = None"
  using find_first_skip [OF assms, of "[]"] assms(2) by simp

lemma renderTemplate_no_brace:
  assumes "lbrace \<notin> set (template st)"
  shows "renderTemplate st url title = template st"
proof -
  have "find_first (js ''{{frontmatterKey}}'') (template st) = None"
    and "find_first (js ''{{url}}'') (template st) = None"
    and "find_first (js ''{{title}}'') (template st) = None"
    using assms by (intro find_first_no_brace; simp add: js_def lbrace_def)+
  then show ?thesis by (simp add: renderTemplate_def replace_def)
qed

text \<open>
  Claim C5, as the code has it. For a plain template (no placeholder more than once,
  no opening brace in the literal text) and plain values (no opening brace, no dollar
  sign), the rendered note is the template with every placeholder replaced by its
  value; rendering the note again leaves it unchanged, and no placeholder occurs in it.
\<close>

theorem renderTemplate_idempotent:
  assumes "plain_template segs" and "template st = template_of segs"
    and "plain_value (frontmatterKey st)" and "plain_value url" and "plain_value title"
  shows "renderTemplate st url title = concat (map (rendered (frontmatterKey st) url title) segs) \<and>
    renderTemplate (st\<lparr> template := renderTemplate st url title \<rparr>) url title
      = renderTemplate st url title \<and>
    \<not> js_includes (renderTemplate st url title) (js ''{{frontmatterKey}}'') \<and>
    \<not> js_includes (renderTemplate st url title) (js ''{{url}}'') \<and>
    \<not> js_includes (renderTemplate st url title) (js ''{{title}}'')"
proof -
  let ?out = "renderTemplate st url title"
  have eq: "?out = concat (map (rendered (frontmatterKey st) url title) segs)"
    using assms by (rule renderTemplate_segments)
  have nb: "lbrace \<notin> set ?out"
    unfolding eq using assms(1,3,4,5)
    by (intro rendered_no_brace) (simp_all add: plain_template_def plain_value_def)
  have "renderTemplate (st\<lparr> template := ?out \<rparr>) url title = template (st\<lparr> template := ?out \<rparr>)"
    by (rule renderTemplate_no_brace) (simp add: nb)
  then have idem: "renderTemplate (st\<lparr> template := ?out \<rparr>) url title = ?out" by simp
  have "find_first (js ''{{frontmatterKey}}'') ?out = None"
    and "find_first (js ''{{url}}'') ?out = None"
    and "find_first (js ''{{title}}'') ?out = None"
    using nb by (intro find_first_no_brace; simp add: js_def lbrace_def)+
  then show ?thesis using eq idem by (simp add: js_includes_def)
qed


text \<open>
  The theorem at the default template, the URL \<^verbatim>\<open>https://example.com/blog/my-post\<close> and
  the title \<^verbatim>\<open>My Post Title\<close>.
\<close>

theorem renderTemplate_idempotent_witness:
  "plain_template default_segments \<and>
   template DEFAULT_SETTINGS = template_of default_segments \<and>
   plain_value (frontmatterKey DEFAULT_SETTINGS) \<and>
   plain_value (js ''https://example.com/blog/my-post'') \<and>
   plain_value (js ''My Post Title'') \<and>
   renderTemplate DEFAULT_SETTINGS (js ''https://example.com/blog/my-post'') (js ''My Post Title'')
     = js ''---\<newline>url: https://example.com/blog/my-post\<newline>---\<newline>\<newline># My Post Title\<newline>\<newline>'' \<and>
   renderTemplate
     (DEFAULT_SETTINGS\<lparr> template :=
        renderTemplate DEFAULT_SETTINGS (js ''https://example.com/blog/my-post'') (js ''My Post Title'') \<rparr>)
     (js ''https://example.com/blog/my-post'') (js ''My Post Title'')
     = js ''---\<newline>url: https://example.com/blog/my-post\<newline>---\<newline>\<newline># My Post Title\<newline>\<newline>'' \<and>
   \<not> js_includes
     (renderTemplate DEFAULT_SETTINGS (js ''https://example.com/blog/my-post'') (js ''My Post Title''))
     (js ''{{url}}'')"
proof -
  have 1: "plain_template default_segments"
    by (simp add: plain_template_def default_segments_def js_def lbrace_def)
  have 2: "template DEFAULT_SETTINGS = template_of default_segments"
    by (simp add: template_of_def default_segments_def DEFAULT_SETTINGS_def js_def)
  have 3: "plain_value (frontmatterKey DEFAULT_SETTINGS)"
    by (simp add: plain_value_def DEFAULT_SETTINGS_def js_def lbrace_def dollar_def)
  have 4: "plain_value (js ''https://example.com/blog/my-post'')"
    by (simp add: plain_value_def js_def lbrace_def dollar_def)
  have 5: "plain_value (js ''My Post Title'')"
    by (simp add: plain_value_def js_def lbrace_def dollar_def)
  have 6: "concat (map (rendered (frontmatterKey DEFAULT_SETTINGS)
        (js ''https://example.com/blog/my-post'') (js ''My Post Title'')) default_segments)
     = js ''---\<newline>url: https://example.com/blog/my-post\<newline>---\<newline>\<newline># My Post Title\<newline>\<newline>''"
    by (simp add: default_segments_def DEFAULT_SETTINGS_def js_def)
  note inst = renderTemplate_idempotent [OF 1 2 3 4 5]
  have a: "renderTemplate DEFAULT_SETTINGS (js ''https://example.com/blog/my-post'') (js ''My Post Title'')
     = js ''---\<newline>url: https://example.com/blog/my-post\<newline>---\<newline>\<newline># My Post Title\<newline>\<newline>''"
    using inst unfolding 6 by blast
  have b: "renderTemplate
     (DEFAULT_SETTINGS\<lparr> template :=
        renderTemplate DEFAULT_SETTINGS (js ''https://example.com/blog/my-post'') (js ''My Post Title'') \<rparr>)
     (js ''https://example.com/blog/my-post'') (js ''My Post Title'')
     = renderTemplate DEFAULT_SETTINGS (js ''https://example.com/blog/my-post'') (js ''My Post Title'')"
    using inst by blast
  have c: "\<not> js_includes
     (renderTemplate DEFAULT_SETTINGS (js ''https://example.com/blog/my-post'') (js ''My Post Title''))
     (js ''{{url}}'')"
    using inst by blast
  from b have b': "renderTemplate
     (DEFAULT_SETTINGS\<lparr> template :=
        renderTemplate DEFAULT_SETTINGS (js ''https://example.com/blog/my-post'') (js ''My Post Title'') \<rparr>)
     (js ''https://example.com/blog/my-post'') (js ''My Post Title'')
     = js ''---\<newline>url: https://example.com/blog/my-post\<newline>---\<newline>\<newline># My Post Title\<newline>\<newline>''"
    using a by (rule trans)
  from 1 2 3 4 5 a b' c show ?thesis by blast
qed

text \<open>
  A further property of the renderer (X1): when neither the key, the URL nor the title
  holds a dollar sign, it is the three literal substitutions of the spec, in their
  order, each at the first occurrence only.
\<close>

theorem renderTemplate_literal:
  assumes "dollar \<notin> set (frontmatterKey st)" and "dollar \<notin> set url" and "dollar \<notin> set title"
  shows "renderTemplate st url title = spec_renderTemplate st url title"
proof -
  have "replace pat repl s = replace_literal pat repl s" if "dollar \<notin> set repl" for pat repl s
    using that by (simp add: replace_def replace_literal_def getSubstitution_plain split: option.splits)
  then show ?thesis using assms by (simp add: renderTemplate_def spec_renderTemplate_def)
qed

text \<open>
  The theorem at a template that holds \<^verbatim>\<open>{{url}}\<close> twice: the second occurrence stays.
\<close>

theorem renderTemplate_literal_witness:
  "dollar \<notin> set (frontmatterKey DEFAULT_SETTINGS) \<and>
   dollar \<notin> set (js ''https://example.com/blog/my-post'') \<and>
   dollar \<notin> set (js ''My Post Title'') \<and>
   renderTemplate
     (DEFAULT_SETTINGS\<lparr> template := js ''{{url}} {{url}} {{title}}'' \<rparr>)
     (js ''https://example.com/blog/my-post'') (js ''My Post Title'')
     = js ''https://example.com/blog/my-post {{url}} My Post Title'' \<and>
   spec_renderTemplate
     (DEFAULT_SETTINGS\<lparr> template := js ''{{url}} {{url}} {{title}}'' \<rparr>)
     (js ''https://example.com/blog/my-post'') (js ''My Post Title'')
     = js ''https://example.com/blog/my-post {{url}} My Post Title''"
proof -
  have 1: "dollar \<notin> set (frontmatterKey (DEFAULT_SETTINGS\<lparr> template := js ''{{url}} {{url}} {{title}}'' \<rparr>))"
    by (simp add: DEFAULT_SETTINGS_def js_def dollar_def)
  have 2: "dollar \<notin> set (js ''https://example.com/blog/my-post'')"
    by (simp add: js_def dollar_def)
  have 3: "dollar \<notin> set (js ''My Post Title'')"
    by (simp add: js_def dollar_def)
  have 4: "spec_renderTemplate
     (DEFAULT_SETTINGS\<lparr> template := js ''{{url}} {{url}} {{title}}'' \<rparr>)
     (js ''https://example.com/blog/my-post'') (js ''My Post Title'')
     = js ''https://example.com/blog/my-post {{url}} My Post Title''"
    by (simp add: spec_renderTemplate_def replace_literal_def DEFAULT_SETTINGS_def js_def)
  from renderTemplate_literal [OF 1 2 3] 1 2 3 4 show ?thesis by simp
qed

section \<open>The extended sanitizer at a hyphen\<close>

lemma dropWhile_keep:
  "\<not> P e \<Longrightarrow> dropWhile P (X @ e # Y) = dropWhile P X @ e # Y"
  by (simp add: dropWhile_append)

lemma replaceDash_hyphen_first:
  assumes "\<forall>x\<in>set w. isSpace x"
  shows "replaceDash (w @ hyphen # t) = emDash # replaceDash (dropWhile isSpace t)"
proof -
  obtain c cs where s: "w @ hyphen # t = c # cs"
    by (cases "w @ hyphen # t") auto
  have "dropWhile isSpace (w @ hyphen # t) = hyphen # t"
    using assms by (simp add: dropWhile_append)
  then have "dropWhile isSpace (c # cs) = hyphen # t" using s by simp
  then have "replaceDash (c # cs) = emDash # replaceDash (dropWhile isSpace t)"
    by (rule replaceDash_match)
  then show ?thesis using s by simp
qed

lemma replaceDash_at_hyphen:
  assumes w: "\<forall>x\<in>set w. isSpace x"
  shows "a = [] \<or> \<not> isSpace (last a) \<Longrightarrow>
    replaceDash (a @ w @ hyphen # t) = replaceDash a @ emDash # replaceDash (dropWhile isSpace t)"
proof (induction a rule: length_induct)
  case (1 a)
  show ?case
  proof (cases a)
    case Nil
    then show ?thesis using replaceDash_hyphen_first [OF w] by simp
  next
    case (Cons c a')
    then have la: "\<not> isSpace (last a)" and ne: "a \<noteq> []" using 1(2) by auto
    then have mem: "last a \<in> set a" by simp
    let ?rest = "w @ hyphen # t"
    have dw: "dropWhile isSpace (a @ ?rest) = dropWhile isSpace a @ ?rest"
      using mem la by (rule dropWhile_append1)
    have dne: "dropWhile isSpace a \<noteq> []"
      using mem la by (auto simp: dropWhile_eq_Nil_conv)
    then obtain d r where dr: "dropWhile isSpace a = d # r"
      by (cases "dropWhile isSpace a") auto
    have full: "dropWhile isSpace (c # (a' @ ?rest)) = d # (r @ ?rest)"
      using dw dr Cons by simp
    have ashort: "dropWhile isSpace (c # a') = d # r" using dr Cons by simp
    show ?thesis
    proof (cases "d = hyphen")
      case True
      have lhs: "replaceDash (a @ ?rest) = emDash # replaceDash (dropWhile isSpace (r @ ?rest))"
        using replaceDash_match [of c "a' @ ?rest" "r @ ?rest"] full True Cons by simp
      have rhs: "replaceDash a = emDash # replaceDash (dropWhile isSpace r)"
        using replaceDash_match [of c a' r] ashort True Cons by simp
      show ?thesis
      proof (cases "r = []")
        case True
        have "dropWhile isSpace (r @ ?rest) = hyphen # t"
          using True w by (simp add: dropWhile_append)
        then have "replaceDash (a @ ?rest) = emDash # replaceDash (hyphen # t)"
          using lhs by simp
        also have "replaceDash (hyphen # t) = emDash # replaceDash (dropWhile isSpace t)"
          using replaceDash_hyphen_first [of "[]" t] by simp
        finally show ?thesis using rhs True by simp
      next
        case False
        have "last (d # r) = last a"
          using dr ne by (metis last_appendR takeWhile_dropWhile_id list.distinct(1))
        then have lr: "last r = last a" using False by simp
        have memr: "last r \<in> set r" using False by simp
        have nsr: "\<not> isSpace (last r)" using lr la by simp
        let ?a2 = "dropWhile isSpace r"
        have d2: "dropWhile isSpace (r @ ?rest) = ?a2 @ ?rest"
          using memr nsr by (rule dropWhile_append1)
        have a2ne: "?a2 \<noteq> []" using memr nsr by (auto simp: dropWhile_eq_Nil_conv)
        have "last ?a2 = last r"
          using a2ne by (metis last_appendR takeWhile_dropWhile_id)
        then have a2ok: "?a2 = [] \<or> \<not> isSpace (last ?a2)" using nsr by simp
        have "length ?a2 \<le> length r" by (rule length_dropWhile_le)
        moreover have "length r < length a"
          using length_dropWhile_le [of isSpace a] dr by simp
        ultimately have "length ?a2 < length a" by simp
        then have "replaceDash (?a2 @ ?rest)
            = replaceDash ?a2 @ emDash # replaceDash (dropWhile isSpace t)"
          using 1(1) a2ok by blast
        then show ?thesis using lhs rhs d2 by simp
      qed
    next
      case False
      have lhs: "replaceDash (a @ ?rest) = c # replaceDash (a' @ ?rest)"
        using replaceDash_copy [of c "a' @ ?rest" d "r @ ?rest"] full False Cons by simp
      have rhs: "replaceDash a = c # replaceDash a'"
        using replaceDash_copy [of c a' d r] ashort False Cons by simp
      have "a' = [] \<or> \<not> isSpace (last a')" using la Cons by auto
      moreover have "length a' < length a" using Cons by simp
      ultimately have "replaceDash (a' @ ?rest)
          = replaceDash a' @ emDash # replaceDash (dropWhile isSpace t)"
        using 1(1) by blast
      then show ?thesis using lhs rhs by simp
    qed
  qed
qed


lemma trimEnd_append_spaces: "\<forall>x\<in>set w. isSpace x \<Longrightarrow> trimEnd (a @ w) = trimEnd a"
  by (simp add: trimEnd_def dropWhile_append)

lemma trimEnd_last: "trimEnd a = [] \<or> \<not> isSpace (last (trimEnd a))"
proof (cases "dropWhile isSpace (rev a)")
  case Nil
  then show ?thesis by (simp add: trimEnd_def)
next
  case (Cons d r)
  then have "\<not> isSpace d" by (metis hd_dropWhile list.distinct(1) list.sel(1))
  moreover have "last (trimEnd a) = d" using Cons by (simp add: trimEnd_def)
  ultimately show ?thesis by simp
qed

lemma trimEnd_split: "\<exists>w. a = trimEnd a @ w \<and> (\<forall>x\<in>set w. isSpace x)"
proof -
  have "rev a = takeWhile isSpace (rev a) @ dropWhile isSpace (rev a)" by simp
  then have "a = rev (dropWhile isSpace (rev a)) @ rev (takeWhile isSpace (rev a))"
    by (metis rev_append rev_rev_ident)
  moreover have "\<forall>x\<in>set (rev (takeWhile isSpace (rev a))). isSpace x"
    by (auto dest: set_takeWhileD)
  ultimately show ?thesis unfolding trimEnd_def by blast
qed

lemma replaceDash_around_hyphen:
  assumes "\<forall>x\<in>set w1. isSpace x" and "\<forall>x\<in>set w2. isSpace x"
  shows "replaceDash (a @ w1 @ [hyphen] @ w2 @ b)
    = replaceDash (trimEnd a) @ emDash # replaceDash (trimStart b)"
proof -
  obtain w0 where w0: "a = trimEnd a @ w0" "\<forall>x\<in>set w0. isSpace x"
    using trimEnd_split by blast
  have ws: "\<forall>x\<in>set (w0 @ w1). isSpace x" using w0(2) assms(1) by auto
  have eq: "a @ w1 @ [hyphen] @ w2 @ b = trimEnd a @ (w0 @ w1) @ hyphen # (w2 @ b)"
    using w0(1) by (metis append.assoc append_Cons append_Nil)
  have "replaceDash (a @ w1 @ [hyphen] @ w2 @ b)
      = replaceDash (trimEnd a @ (w0 @ w1) @ hyphen # (w2 @ b))"
    by (simp only: eq)
  also have "\<dots> = replaceDash (trimEnd a) @ emDash # replaceDash (dropWhile isSpace (w2 @ b))"
    by (rule replaceDash_at_hyphen [OF ws trimEnd_last])
  also have "dropWhile isSpace (w2 @ b) = trimStart b"
    using assms(2) by (simp add: trimStart_def dropWhile_append)
  finally show ?thesis .
qed

lemma strip_ext_around: "strip_ext (X @ emDash # Y) = strip_ext X @ emDash # strip_ext Y"
  by (simp add: strip_ext_def)

lemma trim_around: "trim (X @ emDash # Y) = trimStart X @ emDash # trimEnd Y"
proof -
  have "trimStart (X @ emDash # Y) = trimStart X @ emDash # Y"
    by (simp add: trimStart_def dropWhile_keep)
  moreover have "trimEnd (Z @ emDash # Y) = Z @ emDash # trimEnd Y" for Z
  proof -
    have "rev (Z @ emDash # Y) = rev Y @ emDash # rev Z" by simp
    then have "dropWhile isSpace (rev (Z @ emDash # Y)) = dropWhile isSpace (rev Y) @ emDash # rev Z"
      by (simp add: dropWhile_keep)
    then show ?thesis by (simp add: trimEnd_def)
  qed
  ultimately show ?thesis by (simp add: trim_def)
qed

lemma collapse_around:
  "\<not> isSpace e \<Longrightarrow> collapse (X @ e # Y) = collapse X @ e # collapse Y"
proof (induction X rule: collapse.induct)
  case 1
  then show ?case by (simp add: collapse.simps(2))
next
  case (2 c cs)
  show ?case
  proof (cases "isSpace c")
    case True
    have "collapse ((c # cs) @ e # Y) = hyphen # collapse (dropWhile isSpace (cs @ e # Y))"
      using True by (simp add: collapse.simps(2))
    also have "dropWhile isSpace (cs @ e # Y) = dropWhile isSpace cs @ e # Y"
      using 2(3) by (rule dropWhile_keep)
    also have "collapse (dropWhile isSpace cs @ e # Y)
        = collapse (dropWhile isSpace cs) @ e # collapse Y"
      using 2(1) [OF True 2(3)] .
    finally show ?thesis using True by (simp add: collapse.simps(2))
  next
    case False
    then show ?thesis using 2(2) [OF False 2(3)] by (simp add: collapse.simps(2))
  qed
qed

lemma toLowerCase_around:
  "toLowerCase (X @ emDash # Y) = toLowerCase X @ emDash # toLowerCase Y"
  by (simp add: toLowerCase_def)

lemma sanitize_ext_around_hyphen:
  assumes "\<forall>x\<in>set w1. isSpace x" and "\<forall>x\<in>set w2. isSpace x"
  shows "sanitizeFileName_ext (a @ w1 @ [hyphen] @ w2 @ b)
    = toLowerCase (collapse (trimStart (strip_ext (replaceDash (trimEnd a)))))
      @ [emDash]
      @ toLowerCase (collapse (trimEnd (strip_ext (replaceDash (trimStart b)))))"
  unfolding sanitizeFileName_ext_def replaceDash_around_hyphen [OF assms]
  by (simp add: strip_ext_around trim_around collapse_around toLowerCase_around)

lemma replaceDash_through:
  assumes e: "\<not> isSpace e" "e \<noteq> hyphen"
  shows "replaceDash (X @ e # Y) = replaceDash X @ e # replaceDash Y"
proof (induction X rule: length_induct)
  case (1 X)
  show ?case
  proof (cases X)
    case Nil
    have "dropWhile isSpace (e # Y) = e # Y" using e(1) by simp
    then have "replaceDash (e # Y) = e # replaceDash Y"
      using e(2) by (rule replaceDash_copy)
    then show ?thesis using Nil by simp
  next
    case (Cons c X')
    have len: "length X' < length X" using Cons by simp
    show ?thesis
    proof (cases "dropWhile isSpace X")
      case Nil
      then have all: "\<forall>x\<in>set X. isSpace x" by (metis dropWhile_eq_Nil_conv)
      have "dropWhile isSpace (c # (X' @ e # Y)) = e # Y"
        using all e(1) Cons by (simp add: dropWhile_append)
      then have "replaceDash (c # (X' @ e # Y)) = c # replaceDash (X' @ e # Y)"
        using e(2) by (rule replaceDash_copy)
      moreover have "replaceDash (c # X') = c # replaceDash X'"
        using Nil Cons by (simp add: replaceDash_spaces)
      moreover have "replaceDash (X' @ e # Y) = replaceDash X' @ e # replaceDash Y"
        using 1 len by blast
      ultimately show ?thesis using Cons by simp
    next
      case (Cons d r) note dr = this
      have full: "dropWhile isSpace (c # (X' @ e # Y)) = d # (r @ e # Y)"
        using dropWhile_keep [of isSpace e X Y] e(1) dr \<open>X = c # X'\<close> by simp
      have short: "dropWhile isSpace (c # X') = d # r" using dr \<open>X = c # X'\<close> by simp
      show ?thesis
      proof (cases "d = hyphen")
        case True
        have lhs: "replaceDash (c # (X' @ e # Y)) = emDash # replaceDash (dropWhile isSpace (r @ e # Y))"
          using full True by (simp add: replaceDash_match)
        have rhs: "replaceDash (c # X') = emDash # replaceDash (dropWhile isSpace r)"
          using short True by (simp add: replaceDash_match)
        have dk: "dropWhile isSpace (r @ e # Y) = dropWhile isSpace r @ e # Y"
          using dropWhile_keep [of isSpace e r Y] e(1) by simp
        have "length (dropWhile isSpace r) \<le> length r" by (rule length_dropWhile_le)
        moreover have "length r < length X"
          using length_dropWhile_le [of isSpace X] dr by simp
        ultimately have "length (dropWhile isSpace r) < length X" by simp
        then have "replaceDash (dropWhile isSpace r @ e # Y)
            = replaceDash (dropWhile isSpace r) @ e # replaceDash Y"
          using 1 by blast
        then show ?thesis using lhs rhs dk \<open>X = c # X'\<close> by simp
      next
        case False
        have "replaceDash (c # (X' @ e # Y)) = c # replaceDash (X' @ e # Y)"
          using full False by (rule replaceDash_copy)
        moreover have "replaceDash (c # X') = c # replaceDash X'"
          using short False by (rule replaceDash_copy)
        moreover have "replaceDash (X' @ e # Y) = replaceDash X' @ e # replaceDash Y"
          using 1 len by blast
        ultimately show ?thesis using \<open>X = c # X'\<close> by simp
      qed
    qed
  qed
qed

lemma replaceDash_snoc:
  "\<not> isSpace e \<Longrightarrow> e \<noteq> hyphen \<Longrightarrow> replaceDash (X @ [e]) = replaceDash X @ [e]"
  using replaceDash_through [of e X "[]"] by simp

lemma replaceDash_Cons_kept:
  "\<not> isSpace e \<Longrightarrow> e \<noteq> hyphen \<Longrightarrow> replaceDash (e # Y) = e # replaceDash Y"
  using replaceDash_through [of e "[]" Y] by simp

lemma replaceDash_all_spaces:
  "\<forall>x\<in>set w. isSpace x \<Longrightarrow> replaceDash w = w"
proof (induction w)
  case Nil
  then show ?case by simp
next
  case (Cons c w)
  then have "dropWhile isSpace (c # w) = []" by simp
  then have "replaceDash (c # w) = c # replaceDash w" by (rule replaceDash_spaces)
  with Cons show ?case by simp
qed

text \<open>What the dash step keeps, in order.\<close>

lemma filter_dropWhile_space:
  "(\<And>c. Q c \<Longrightarrow> \<not> isSpace c) \<Longrightarrow> filter Q (dropWhile isSpace s) = filter Q s"
  by (induction s) auto

lemma filter_spaces_Nil:
  "(\<And>c. Q c \<Longrightarrow> \<not> isSpace c) \<Longrightarrow> \<forall>x\<in>set w. isSpace x \<Longrightarrow> filter Q w = []"
  by (induction w) auto

lemma filter_trim:
  assumes "\<And>c. Q c \<Longrightarrow> \<not> isSpace c"
  shows "filter Q (trim s) = filter Q s"
proof -
  have a: "filter Q (trimStart u) = filter Q u" for u
    unfolding trimStart_def using assms by (rule filter_dropWhile_space)
  have "filter Q (trimEnd u) = rev (filter Q (dropWhile isSpace (rev u)))" for u
    by (simp add: trimEnd_def rev_filter)
  also have "\<dots> u = rev (filter Q (rev u))" for u
    using filter_dropWhile_space [of Q "rev u"] assms by simp
  finally have b: "filter Q (trimEnd u) = filter Q u" for u
    by (simp add: rev_filter)
  show ?thesis by (simp add: trim_def a b)
qed

lemma filter_collapse:
  "filter (\<lambda>c. c \<noteq> hyphen) (collapse s) = filter (\<lambda>c. \<not> isSpace c \<and> c \<noteq> hyphen) s"
proof (induction s rule: collapse.induct)
  case 1
  then show ?case by simp
next
  case (2 c cs)
  show ?case
  proof (cases "isSpace c")
    case True
    have "filter (\<lambda>c. \<not> isSpace c \<and> c \<noteq> hyphen) (dropWhile isSpace cs)
        = filter (\<lambda>c. \<not> isSpace c \<and> c \<noteq> hyphen) cs"
      by (rule filter_dropWhile_space) simp
    then show ?thesis using True 2(1) by (simp add: collapse.simps(2))
  next
    case False
    then show ?thesis using 2(2) by (simp add: collapse.simps(2))
  qed
qed

lemma filter_replaceDash:
  "filter (\<lambda>c. isWord c \<or> c = emDash) (replaceDash s)
   = map (\<lambda>c. if c = hyphen then emDash else c)
       (filter (\<lambda>c. isWord c \<or> c = hyphen \<or> c = emDash) s)"
  (is "filter ?K (replaceDash s) = map ?f (filter ?K' s)")
proof (induction s rule: length_induct)
  case (1 s)
  have K'ns: "\<And>c. ?K' c \<Longrightarrow> \<not> isSpace c"
    using word_not_space not_space_hyphen not_space_emDash by blast
  show ?case
  proof (cases s)
    case Nil
    then show ?thesis by simp
  next
    case (Cons c cs)
    have len: "length cs < length s" using Cons by simp
    show ?thesis
    proof (cases c cs rule: replaceDash_cases)
      case spaces
      have eq: "replaceDash s = c # replaceDash cs"
        unfolding Cons by (rule replaceDash_spaces [OF spaces(1)])
      have "isSpace c" using spaces(2) by simp
      then have "\<not> ?K c" "\<not> ?K' c" using K'ns by auto
      then show ?thesis using eq 1 len Cons by simp
    next
      case (match w r)
      have eq: "replaceDash s = emDash # replaceDash (dropWhile isSpace r)"
        unfolding Cons by (rule replaceDash_match [OF match(3)])
      have l2: "length (dropWhile isSpace r) < length s"
        using match(1) Cons dropWhile_shorter by metis
      have ih: "filter ?K (replaceDash (dropWhile isSpace r))
          = map ?f (filter ?K' (dropWhile isSpace r))"
        using 1 l2 by blast
      have d: "filter ?K' (dropWhile isSpace r) = filter ?K' r"
        using K'ns by (rule filter_dropWhile_space)
      have w: "filter ?K' w = []"
        using K'ns match(2) by (rule filter_spaces_Nil)
      have "filter ?K' s = hyphen # filter ?K' r"
        using Cons match(1) w by simp
      then show ?thesis using eq ih d by simp
    next
      case (copy d r)
      have eq: "replaceDash s = c # replaceDash cs"
        unfolding Cons by (rule replaceDash_copy [OF copy(1,2)])
      have ih: "filter ?K (replaceDash cs) = map ?f (filter ?K' cs)"
        using 1 len by blast
      show ?thesis using eq ih Cons copy(3) by simp
    qed
  qed
qed

lemma toLowerUnit_eq_hyphen [simp]: "toLowerUnit c = hyphen \<longleftrightarrow> c = hyphen"
  by (auto simp: toLowerUnit_def hyphen_def)

lemma hyphen_eq_toLowerUnit [simp]: "hyphen = toLowerUnit c \<longleftrightarrow> c = hyphen"
  by (auto simp: toLowerUnit_def hyphen_def)

lemma sanitize_ext_content:
  "filter (\<lambda>c. c \<noteq> hyphen) (sanitizeFileName_ext t)
   = map (\<lambda>c. if c = hyphen then emDash else if 65 \<le> c \<and> c \<le> 90 then c + 32 else c)
       (filter (\<lambda>c. isWord c \<or> c = hyphen \<or> c = emDash) t)"
proof -
  let ?y = "trim (strip_ext (replaceDash t))"
  have "filter (\<lambda>c. c \<noteq> hyphen) (sanitizeFileName_ext t)
      = map toLowerUnit (filter (\<lambda>c. c \<noteq> hyphen) (collapse ?y))"
    by (simp add: sanitizeFileName_ext_def toLowerCase_def filter_map comp_def)
  also have "filter (\<lambda>c. c \<noteq> hyphen) (collapse ?y)
      = filter (\<lambda>c. \<not> isSpace c \<and> c \<noteq> hyphen) ?y"
    by (rule filter_collapse)
  also have "\<dots> = filter (\<lambda>c. \<not> isSpace c \<and> c \<noteq> hyphen) (strip_ext (replaceDash t))"
    by (rule filter_trim) simp
  also have "\<dots> = filter (\<lambda>c. isWord c \<or> c = emDash) (replaceDash t)"
    unfolding strip_ext_def filter_filter
    by (rule filter_cong) (use word_not_space not_word_hyphen in auto)
  also have "\<dots> = map (\<lambda>c. if c = hyphen then emDash else c)
       (filter (\<lambda>c. isWord c \<or> c = hyphen \<or> c = emDash) t)"
    by (rule filter_replaceDash)
  finally show ?thesis
    by (simp add: comp_def toLowerUnit_def emDash_def hyphen_def cong: if_cong)
qed

lemma sanitize_ext_alphabet:
  assumes "x \<in> set (sanitizeFileName_ext t)"
  shows "(isWord x \<and> \<not> (65 \<le> x \<and> x \<le> 90)) \<or> x = hyphen \<or> x = emDash"
proof -
  obtain y where "x = toLowerUnit y"
    using assms unfolding sanitizeFileName_ext_def toLowerCase_def by auto
  then have "\<not> (65 \<le> x \<and> x \<le> 90)" by (auto simp: toLowerUnit_def)
  with sanitize_ext_units [OF assms] show ?thesis by blast
qed

lemma trim_through:
  assumes "\<not> isSpace e"
  shows "trim (X @ e # Y) = trimStart X @ e # trimEnd Y"
proof -
  have "trimStart (X @ e # Y) = trimStart X @ e # Y"
    using dropWhile_keep [of isSpace e X Y] assms by (simp add: trimStart_def)
  moreover have "trimEnd (Z @ e # Y) = Z @ e # trimEnd Y" for Z
  proof -
    have "rev (Z @ e # Y) = rev Y @ e # rev Z" by simp
    then have "dropWhile isSpace (rev (Z @ e # Y)) = dropWhile isSpace (rev Y) @ e # rev Z"
      using dropWhile_keep [of isSpace e "rev Y" "rev Z"] assms by simp
    then show ?thesis by (simp add: trimEnd_def)
  qed
  ultimately show ?thesis by (simp add: trim_def)
qed

lemma trimEnd_through:
  assumes "\<not> isSpace e"
  shows "trimEnd (Z @ e # Y) = Z @ e # trimEnd Y"
proof -
  have "rev (Z @ e # Y) = rev Y @ e # rev Z" by simp
  then have "dropWhile isSpace (rev (Z @ e # Y)) = dropWhile isSpace (rev Y) @ e # rev Z"
    using dropWhile_keep [of isSpace e "rev Y" "rev Z"] assms by simp
  then show ?thesis by (simp add: trimEnd_def)
qed

lemma collapse_spaces:
  assumes "w \<noteq> []" "\<forall>x\<in>set w. isSpace x" "\<not> isSpace q"
  shows "collapse (w @ q # Z) = hyphen # q # collapse Z"
proof -
  obtain c w' where w: "w = c # w'" using assms(1) by (cases w) auto
  have "isSpace c" using assms(2) w by simp
  then have "collapse (c # (w' @ q # Z)) = hyphen # collapse (dropWhile isSpace (w' @ q # Z))"
    by (simp add: collapse.simps(2))
  also have "dropWhile isSpace (w' @ q # Z) = q # Z"
    using assms(2,3) w by (simp add: dropWhile_append)
  also have "collapse (q # Z) = q # collapse Z"
    using assms(3) by (simp add: collapse.simps(2))
  finally show ?thesis using w by simp
qed

lemma collapse_kept_Cons: "\<not> isSpace q \<Longrightarrow> collapse (q # Z) = q # collapse Z"
  by (simp add: collapse.simps(2))

lemma collapse_snoc: "\<not> isSpace p \<Longrightarrow> collapse (X @ [p]) = collapse X @ [p]"
  using collapse_around [of p X "[]"] by simp

lemma strip_ext_append: "strip_ext (X @ Y) = strip_ext X @ strip_ext Y"
  by (simp add: strip_ext_def)

lemma strip_ext_spaces: "\<forall>x\<in>set w. isSpace x \<Longrightarrow> strip_ext w = w"
  by (simp add: strip_ext_def)

lemma strip_ext_kept: "isWord p \<or> p = emDash \<Longrightarrow> strip_ext (p # Y) = p # strip_ext Y"
  by (auto simp: strip_ext_def)

lemma strip_ext_junk:
  "\<not> isWord x \<Longrightarrow> \<not> isSpace x \<Longrightarrow> x \<noteq> emDash \<Longrightarrow> strip_ext (x # Y) = strip_ext Y"
  by (simp add: strip_ext_def)

lemma kept_unit:
  "isWord p \<or> p = emDash \<Longrightarrow> \<not> isSpace p \<and> p \<noteq> hyphen"
  using word_not_space not_word_hyphen by auto

text \<open>White space between two kept units becomes one hyphen between the two results.\<close>

lemma sanitize_ext_gap:
  assumes w: "w \<noteq> []" "\<forall>x\<in>set w. isSpace x"
    and p: "isWord p \<or> p = emDash" and q: "isWord q \<or> q = emDash"
  shows "sanitizeFileName_ext ((u @ [p]) @ w @ (q # v))
    = sanitizeFileName_ext (u @ [p]) @ [hyphen] @ sanitizeFileName_ext (q # v)"
proof -
  have pn: "\<not> isSpace p" "p \<noteq> hyphen" and qn: "\<not> isSpace q" "q \<noteq> hyphen"
    using kept_unit [OF p] kept_unit [OF q] by auto
  let ?A = "strip_ext (replaceDash u)" and ?B = "strip_ext (replaceDash v)"
  have rq: "replaceDash (w @ q # v) = w @ q # replaceDash v"
    using replaceDash_through [OF qn, of w v] replaceDash_all_spaces [OF w(2)] by simp
  have "replaceDash ((u @ [p]) @ w @ (q # v)) = replaceDash (u @ p # (w @ q # v))" by simp
  also have "\<dots> = replaceDash u @ p # replaceDash (w @ q # v)"
    by (rule replaceDash_through [OF pn])
  finally have r: "replaceDash ((u @ [p]) @ w @ (q # v)) = replaceDash u @ p # w @ q # replaceDash v"
    using rq by simp
  have s: "strip_ext (replaceDash ((u @ [p]) @ w @ (q # v))) = ?A @ p # (w @ q # ?B)"
    unfolding r using strip_ext_kept [OF p] strip_ext_kept [OF q] strip_ext_spaces [OF w(2)]
    by (simp add: strip_ext_append)
  have t: "trim (?A @ p # (w @ q # ?B)) = trimStart ?A @ p # (w @ q # trimEnd ?B)"
    using trim_through [OF pn(1), of ?A "w @ q # ?B"] trimEnd_through [OF qn(1), of w ?B]
    by simp
  have c: "collapse (trimStart ?A @ p # (w @ q # trimEnd ?B))
      = collapse (trimStart ?A) @ p # hyphen # q # collapse (trimEnd ?B)"
    using collapse_around [OF pn(1), of "trimStart ?A" "w @ q # trimEnd ?B"]
      collapse_spaces [OF w qn(1), of "trimEnd ?B"] by simp
  have whole: "sanitizeFileName_ext ((u @ [p]) @ w @ (q # v))
      = toLowerCase (collapse (trimStart ?A) @ [p]) @ [hyphen] @ toLowerCase (q # collapse (trimEnd ?B))"
    unfolding sanitizeFileName_ext_def s t c by (simp add: toLowerCase_def)
  have left: "sanitizeFileName_ext (u @ [p]) = toLowerCase (collapse (trimStart ?A) @ [p])"
  proof -
    have "strip_ext (replaceDash (u @ [p])) = ?A @ [p]"
      using replaceDash_snoc [OF pn, of u] strip_ext_kept [OF p, of "[]"]
      by (simp add: strip_ext_append strip_ext_def)
    moreover have "trim (?A @ [p]) = trimStart ?A @ [p]"
      using trim_through [OF pn(1), of ?A "[]"] by (simp add: trimEnd_def)
    moreover have "collapse (trimStart ?A @ [p]) = collapse (trimStart ?A) @ [p]"
      by (rule collapse_snoc [OF pn(1)])
    ultimately show ?thesis by (simp add: sanitizeFileName_ext_def)
  qed
  have right: "sanitizeFileName_ext (q # v) = toLowerCase (q # collapse (trimEnd ?B))"
  proof -
    have "strip_ext (replaceDash (q # v)) = q # ?B"
      using replaceDash_Cons_kept [OF qn, of v] strip_ext_kept [OF q] by simp
    moreover have "trim (q # ?B) = q # trimEnd ?B"
      using trim_through [OF qn(1), of "[]" ?B] by (simp add: trimStart_def)
    moreover have "collapse (q # trimEnd ?B) = q # collapse (trimEnd ?B)"
      by (rule collapse_kept_Cons [OF qn(1)])
    ultimately show ?thesis by (simp add: sanitizeFileName_ext_def)
  qed
  show ?thesis unfolding whole left right ..
qed

lemma sanitize_ext_gap_general:
  assumes "w \<noteq> []" "\<forall>x\<in>set w. isSpace x"
    and "u \<noteq> []" "isWord (last u) \<or> last u = emDash"
    and "v \<noteq> []" "isWord (hd v) \<or> hd v = emDash"
  shows "sanitizeFileName_ext (u @ w @ v)
    = sanitizeFileName_ext u @ [hyphen] @ sanitizeFileName_ext v"
proof -
  have u: "u = butlast u @ [last u]" using assms(3) by simp
  have v: "v = hd v # tl v" using assms(5) by simp
  have "sanitizeFileName_ext ((butlast u @ [last u]) @ w @ (hd v # tl v))
     = sanitizeFileName_ext (butlast u @ [last u]) @ [hyphen] @ sanitizeFileName_ext (hd v # tl v)"
    by (rule sanitize_ext_gap [OF assms(1,2,4,6)])
  then show ?thesis using u v by simp
qed

text \<open>A stripped unit leaves no trace when one of its neighbours is neither white space nor a hyphen.\<close>

lemma replaceDash_append_left:
  assumes "u = [] \<or> (\<not> isSpace (last u) \<and> last u \<noteq> hyphen)"
  shows "replaceDash (u @ v) = replaceDash u @ replaceDash v"
proof (cases "u = []")
  case True
  then show ?thesis by simp
next
  case False
  then obtain X p where u: "u = X @ [p]" by (metis append_butlast_last_id)
  then have l: "\<not> isSpace p" "p \<noteq> hyphen" using assms by auto
  have "replaceDash ((X @ [p]) @ v) = replaceDash (X @ p # v)" by simp
  also have "\<dots> = replaceDash X @ p # replaceDash v"
    by (rule replaceDash_through [OF l])
  also have "\<dots> = (replaceDash X @ [p]) @ replaceDash v" by simp
  also have "replaceDash X @ [p] = replaceDash (X @ [p])"
    by (rule replaceDash_snoc [OF l, symmetric])
  finally show ?thesis unfolding u .
qed

lemma replaceDash_append_right:
  assumes "v = [] \<or> (\<not> isSpace (hd v) \<and> hd v \<noteq> hyphen)"
  shows "replaceDash (u @ v) = replaceDash u @ replaceDash v"
proof (cases v)
  case Nil
  then show ?thesis by simp
next
  case (Cons q Z)
  then have l: "\<not> isSpace q" "q \<noteq> hyphen" using assms by auto
  have "replaceDash (u @ q # Z) = replaceDash u @ q # replaceDash Z"
    by (rule replaceDash_through [OF l])
  also have "q # replaceDash Z = replaceDash (q # Z)"
    by (rule replaceDash_Cons_kept [OF l, symmetric])
  finally show ?thesis unfolding Cons .
qed

lemma sanitize_ext_junk:
  assumes x: "\<not> isWord x" "\<not> isSpace x" "x \<noteq> hyphen" "x \<noteq> emDash"
    and side: "(u = [] \<or> (\<not> isSpace (last u) \<and> last u \<noteq> hyphen))
             \<or> (v = [] \<or> (\<not> isSpace (hd v) \<and> hd v \<noteq> hyphen))"
  shows "sanitizeFileName_ext (u @ x # v) = sanitizeFileName_ext (u @ v)"
proof -
  have "replaceDash (u @ x # v) = replaceDash u @ x # replaceDash v"
    by (rule replaceDash_through [OF x(2,3)])
  then have a: "strip_ext (replaceDash (u @ x # v)) = strip_ext (replaceDash u) @ strip_ext (replaceDash v)"
    using strip_ext_junk [OF x(1,2,4)] by (simp add: strip_ext_append)
  have "replaceDash (u @ v) = replaceDash u @ replaceDash v"
    using side replaceDash_append_left [of u v] replaceDash_append_right [of v u] by blast
  then have b: "strip_ext (replaceDash (u @ v)) = strip_ext (replaceDash u) @ strip_ext (replaceDash v)"
    by (simp add: strip_ext_append)
  show ?thesis unfolding sanitizeFileName_ext_def a b ..
qed

text \<open>Hyphens of the result stand alone and inside.\<close>

lemma collapse_no_double:
  "hyphen \<notin> set s \<Longrightarrow> \<not> sublist [hyphen, hyphen] (collapse s)"
proof (induction s rule: collapse.induct)
  case 1
  then show ?case by simp
next
  case (2 c cs)
  show ?case
  proof (cases "isSpace c")
    case True
    let ?d = "dropWhile isSpace cs"
    have sub: "set ?d \<subseteq> set cs" by (meson set_dropWhileD subsetI)
    then have nh: "hyphen \<notin> set ?d" using 2(3) by auto
    have ih: "\<not> sublist [hyphen, hyphen] (collapse ?d)" using 2(1) [OF True nh] .
    have hdd: "\<not> prefix [hyphen] (collapse ?d)"
    proof (cases ?d)
      case Nil
      have "\<not> prefix [hyphen] (collapse [])" by simp
      then show ?thesis unfolding Nil .
    next
      case (Cons q Z)
      then have "\<not> isSpace q" by (metis hd_dropWhile list.distinct(1) list.sel(1))
      moreover have "q \<noteq> hyphen" using nh Cons by auto
      ultimately show ?thesis using Cons by (simp add: collapse.simps(2))
    qed
    have "collapse (c # cs) = hyphen # collapse ?d" using True by (simp add: collapse.simps(2))
    then show ?thesis using ih hdd by (simp add: sublist_Cons_right)
  next
    case False
    have nh: "hyphen \<notin> set cs" and c: "c \<noteq> hyphen" using 2(3) by auto
    have "collapse (c # cs) = c # collapse cs" using False by (simp add: collapse.simps(2))
    then show ?thesis using 2(2) [OF False nh] c by (simp add: sublist_Cons_right)
  qed
qed

lemma sublist_map_lower:
  assumes "sublist [hyphen, hyphen] (map toLowerUnit z)"
  shows "sublist [hyphen, hyphen] z"
proof -
  obtain ps ss where "map toLowerUnit z = ps @ [hyphen, hyphen] @ ss"
    using assms by (auto simp: sublist_def)
  then obtain us vs where z: "z = us @ vs" and vs: "map toLowerUnit vs = hyphen # hyphen # ss"
    by (auto simp: map_eq_append_conv)
  from vs obtain a vs' where a: "vs = a # vs'" "toLowerUnit a = hyphen"
      and vs': "map toLowerUnit vs' = hyphen # ss"
    by (auto simp: map_eq_Cons_conv)
  from vs' obtain b r where b: "vs' = b # r" "toLowerUnit b = hyphen"
    by (auto simp: map_eq_Cons_conv)
  have "a = hyphen" "b = hyphen" using a(2) b(2) by simp_all
  then have "z = us @ [hyphen, hyphen] @ r" using z a(1) b(1) by simp
  then show ?thesis unfolding sublist_def by blast
qed

lemma collapse_lower_ends:
  assumes "y \<noteq> []" "\<not> isSpace (hd y)" "\<not> isSpace (last y)" "hyphen \<notin> set y"
  shows "\<not> prefix [hyphen] (map toLowerUnit (collapse y)) \<and>
         \<not> suffix [hyphen] (map toLowerUnit (collapse y))"
proof -
  obtain q Z where qZ: "y = q # Z" using assms(1) by (cases y) auto
  have q: "\<not> isSpace q" "q \<noteq> hyphen" using assms(2,4) qZ by auto
  have "collapse (q # Z) = q # collapse Z" by (rule collapse_kept_Cons [OF q(1)])
  moreover have "toLowerUnit q \<noteq> hyphen" using q(2) by simp
  ultimately have 1: "\<not> prefix [hyphen] (map toLowerUnit (collapse y))"
    using qZ by auto
  obtain X p where Xp: "y = X @ [p]" using assms(1) by (metis append_butlast_last_id)
  have p: "\<not> isSpace p" "p \<noteq> hyphen" using assms(3,4) Xp by auto
  have "collapse (X @ [p]) = collapse X @ [p]" by (rule collapse_snoc [OF p(1)])
  then have "map toLowerUnit (collapse y) = map toLowerUnit (collapse X) @ [toLowerUnit p]"
    using Xp by simp
  moreover have "toLowerUnit p \<noteq> hyphen" using p(2) by simp
  ultimately have 2: "\<not> suffix [hyphen] (map toLowerUnit (collapse y))"
    by auto
  from 1 2 show ?thesis ..
qed

lemma trim_ends:
  "trim s = [] \<or> (\<not> isSpace (hd (trim s)) \<and> \<not> isSpace (last (trim s)))"
proof (cases "trim s = []")
  case True
  then show ?thesis by simp
next
  case False
  have l: "\<not> isSpace (last (trim s))"
    using trimEnd_last [of "trimStart s"] False by (simp add: trim_def)
  have ts: "trimStart s \<noteq> []" using False by (auto simp: trim_def trimEnd_def)
  then have h: "\<not> isSpace (hd (trimStart s))"
    unfolding trimStart_def by (metis hd_dropWhile)
  obtain w where w: "trimStart s = trim s @ w"
    using trimEnd_split [of "trimStart s"] by (auto simp: trim_def)
  have "hd (trim s) = hd (trimStart s)" using w False by (metis hd_append2)
  with h l show ?thesis by simp
qed

lemma sanitize_ext_separators:
  "\<not> prefix [hyphen] (sanitizeFileName_ext t) \<and>
   \<not> suffix [hyphen] (sanitizeFileName_ext t) \<and>
   \<not> sublist [hyphen, hyphen] (sanitizeFileName_ext t)"
proof -
  let ?y = "trim (strip_ext (replaceDash t))"
  have nh: "hyphen \<notin> set ?y"
    using set_trim_subset [of "strip_ext (replaceDash t)"] replaceDash_no_hyphen [of t]
    by (auto simp: strip_ext_def)
  have o: "sanitizeFileName_ext t = map toLowerUnit (collapse ?y)"
    by (simp add: sanitizeFileName_ext_def toLowerCase_def)
  have 3: "\<not> sublist [hyphen, hyphen] (sanitizeFileName_ext t)"
    unfolding o using collapse_no_double [OF nh] sublist_map_lower by blast
  show ?thesis
  proof (cases "?y = []")
    case True
    then show ?thesis using o by simp
  next
    case False
    have e: "\<not> isSpace (hd ?y)" "\<not> isSpace (last ?y)"
      using False trim_ends [of "strip_ext (replaceDash t)"] by auto
    from collapse_lower_ends [OF False e nh] 3 show ?thesis unfolding o by blast
  qed
qed

lemma filter_trimStart:
  "(\<And>c. Q c \<Longrightarrow> \<not> isSpace c) \<Longrightarrow> filter Q (trimStart s) = filter Q s"
  unfolding trimStart_def by (rule filter_dropWhile_space)

lemma filter_trimEnd:
  assumes "\<And>c. Q c \<Longrightarrow> \<not> isSpace c"
  shows "filter Q (trimEnd s) = filter Q s"
proof -
  have "filter Q (trimEnd s) = rev (filter Q (dropWhile isSpace (rev s)))"
    by (simp add: trimEnd_def rev_filter)
  also have "\<dots> = rev (filter Q (rev s))"
    using filter_dropWhile_space [of Q "rev s"] assms by simp
  finally show ?thesis by (simp add: rev_filter)
qed

lemma kept_not_space: "isWord c \<or> c = hyphen \<or> c = emDash \<Longrightarrow> \<not> isSpace c"
  using word_not_space not_space_hyphen not_space_emDash by blast

lemma side_content:
  assumes y: "filter (\<lambda>c. \<not> isSpace c \<and> c \<noteq> hyphen) y
              = filter (\<lambda>c. isWord c \<or> c = emDash) (replaceDash s)"
    and s: "filter (\<lambda>c. isWord c \<or> c = hyphen \<or> c = emDash) s
              = filter (\<lambda>c. isWord c \<or> c = hyphen \<or> c = emDash) a"
  shows "filter (\<lambda>c. c \<noteq> hyphen) (toLowerCase (collapse y))
   = map (\<lambda>c. if c = hyphen then emDash else if 65 \<le> c \<and> c \<le> 90 then c + 32 else c)
       (filter (\<lambda>c. isWord c \<or> c = hyphen \<or> c = emDash) a)"
proof -
  have "filter (\<lambda>c. c \<noteq> hyphen) (toLowerCase (collapse y))
      = map toLowerUnit (filter (\<lambda>c. c \<noteq> hyphen) (collapse y))"
    by (simp add: toLowerCase_def filter_map comp_def)
  also have "filter (\<lambda>c. c \<noteq> hyphen) (collapse y)
      = filter (\<lambda>c. \<not> isSpace c \<and> c \<noteq> hyphen) y"
    by (rule filter_collapse)
  also have "\<dots> = filter (\<lambda>c. isWord c \<or> c = emDash) (replaceDash s)" by (rule y)
  also have "\<dots> = map (\<lambda>c. if c = hyphen then emDash else c)
       (filter (\<lambda>c. isWord c \<or> c = hyphen \<or> c = emDash) s)"
    by (rule filter_replaceDash)
  finally show ?thesis
    unfolding s by (simp add: comp_def toLowerUnit_def emDash_def hyphen_def cong: if_cong)
qed

lemma strip_ext_content:
  "filter (\<lambda>c. \<not> isSpace c \<and> c \<noteq> hyphen) (strip_ext r) = filter (\<lambda>c. isWord c \<or> c = emDash) r"
  unfolding strip_ext_def filter_filter
  by (rule filter_cong) (use word_not_space not_word_hyphen in auto)

lemma left_content:
  "filter (\<lambda>c. c \<noteq> hyphen)
     (toLowerCase (collapse (trimStart (strip_ext (replaceDash (trimEnd a))))))
   = map (\<lambda>c. if c = hyphen then emDash else if 65 \<le> c \<and> c \<le> 90 then c + 32 else c)
       (filter (\<lambda>c. isWord c \<or> c = hyphen \<or> c = emDash) a)"
proof (rule side_content)
  show "filter (\<lambda>c. \<not> isSpace c \<and> c \<noteq> hyphen) (trimStart (strip_ext (replaceDash (trimEnd a))))
      = filter (\<lambda>c. isWord c \<or> c = emDash) (replaceDash (trimEnd a))"
    using filter_trimStart [of "\<lambda>c. \<not> isSpace c \<and> c \<noteq> hyphen"] strip_ext_content by simp
  show "filter (\<lambda>c. isWord c \<or> c = hyphen \<or> c = emDash) (trimEnd a)
      = filter (\<lambda>c. isWord c \<or> c = hyphen \<or> c = emDash) a"
    by (rule filter_trimEnd) (rule kept_not_space)
qed

lemma right_content:
  "filter (\<lambda>c. c \<noteq> hyphen)
     (toLowerCase (collapse (trimEnd (strip_ext (replaceDash (trimStart b))))))
   = map (\<lambda>c. if c = hyphen then emDash else if 65 \<le> c \<and> c \<le> 90 then c + 32 else c)
       (filter (\<lambda>c. isWord c \<or> c = hyphen \<or> c = emDash) b)"
proof (rule side_content)
  show "filter (\<lambda>c. \<not> isSpace c \<and> c \<noteq> hyphen) (trimEnd (strip_ext (replaceDash (trimStart b))))
      = filter (\<lambda>c. isWord c \<or> c = emDash) (replaceDash (trimStart b))"
    using filter_trimEnd [of "\<lambda>c. \<not> isSpace c \<and> c \<noteq> hyphen"] strip_ext_content by simp
  show "filter (\<lambda>c. isWord c \<or> c = hyphen \<or> c = emDash) (trimStart b)
      = filter (\<lambda>c. isWord c \<or> c = hyphen \<or> c = emDash) b"
    by (rule filter_trimStart) (rule kept_not_space)
qed

text \<open>
  Claim C7. The extended sanitizer is the five steps in their order, and each step
  shows in the file name. Hyphens with the white space around them become em dashes:
  no plain hyphen is left after that step, and for a title \<open>a @ '' - '' @ b\<close> the
  result holds an em dash, not a hyphen, at that place, between what is kept of \<open>a\<close>
  and what is kept of \<open>b\<close>; the same holds for a hyphen with any white space or none
  around it. Units outside word characters, white space and the em dash are
  stripped: the result holds only lower-case word characters, hyphens and em dashes,
  its units other than hyphens are the word characters, hyphens and em dashes of
  the title in their order, each hyphen as an em dash and each capital in lower
  case, and a stripped unit leaves no trace when the unit before it or the unit
  after it is neither white space nor a hyphen (between two of those it keeps them
  apart for the first step, which runs before it is stripped). The ends are trimmed
  and runs of white space become single hyphens: no hyphen of the result stands
  first, last or next to another, and white space between two kept units gives
  exactly one hyphen between the two results.
\<close>

theorem sanitizeFileName_ext_dash:
  "sanitizeFileName_ext t = toLowerCase (collapse (trim (strip_ext (replaceDash t)))) \<and>
   hyphen \<notin> set (replaceDash t) \<and>
   sanitizeFileName_ext (a @ js '' - '' @ b)
     = toLowerCase (collapse (trimStart (strip_ext (replaceDash (trimEnd a)))))
       @ [emDash]
       @ toLowerCase (collapse (trimEnd (strip_ext (replaceDash (trimStart b))))) \<and>
   emDash \<noteq> hyphen \<and>
   ((\<forall>x\<in>set w1. isSpace x) \<longrightarrow> (\<forall>x\<in>set w2. isSpace x) \<longrightarrow>
      sanitizeFileName_ext (a @ w1 @ [hyphen] @ w2 @ b)
        = toLowerCase (collapse (trimStart (strip_ext (replaceDash (trimEnd a)))))
          @ [emDash]
          @ toLowerCase (collapse (trimEnd (strip_ext (replaceDash (trimStart b)))))) \<and>
   (\<exists>X Y. sanitizeFileName_ext (a @ js '' - '' @ b) = X @ [emDash] @ Y \<and>
      filter (\<lambda>c. c \<noteq> hyphen) X
        = map (\<lambda>c. if c = hyphen then emDash else if 65 \<le> c \<and> c \<le> 90 then c + 32 else c)
            (filter (\<lambda>c. isWord c \<or> c = hyphen \<or> c = emDash) a) \<and>
      filter (\<lambda>c. c \<noteq> hyphen) Y
        = map (\<lambda>c. if c = hyphen then emDash else if 65 \<le> c \<and> c \<le> 90 then c + 32 else c)
            (filter (\<lambda>c. isWord c \<or> c = hyphen \<or> c = emDash) b)) \<and>
   (\<forall>c\<in>set (sanitizeFileName_ext t).
      (isWord c \<and> \<not> (65 \<le> c \<and> c \<le> 90)) \<or> c = hyphen \<or> c = emDash) \<and>
   filter (\<lambda>c. c \<noteq> hyphen) (sanitizeFileName_ext t)
     = map (\<lambda>c. if c = hyphen then emDash else if 65 \<le> c \<and> c \<le> 90 then c + 32 else c)
         (filter (\<lambda>c. isWord c \<or> c = hyphen \<or> c = emDash) t) \<and>
   \<not> prefix [hyphen] (sanitizeFileName_ext t) \<and>
   \<not> suffix [hyphen] (sanitizeFileName_ext t) \<and>
   \<not> sublist [hyphen, hyphen] (sanitizeFileName_ext t) \<and>
   (w \<noteq> [] \<longrightarrow> (\<forall>c\<in>set w. isSpace c) \<longrightarrow>
    u \<noteq> [] \<longrightarrow> isWord (last u) \<or> last u = emDash \<longrightarrow>
    v \<noteq> [] \<longrightarrow> isWord (hd v) \<or> hd v = emDash \<longrightarrow>
      sanitizeFileName_ext (u @ w @ v)
        = sanitizeFileName_ext u @ [hyphen] @ sanitizeFileName_ext v) \<and>
   (\<not> isWord x \<longrightarrow> \<not> isSpace x \<longrightarrow> x \<noteq> hyphen \<longrightarrow> x \<noteq> emDash \<longrightarrow>
    (l = [] \<or> (\<not> isSpace (last l) \<and> last l \<noteq> hyphen))
      \<or> (r = [] \<or> (\<not> isSpace (hd r) \<and> hd r \<noteq> hyphen)) \<longrightarrow>
      sanitizeFileName_ext (l @ x # r) = sanitizeFileName_ext (l @ r))"
proof -
  have sp: "\<forall>x\<in>set [32]. isSpace x" by (simp add: isSpace_def)
  have "js '' - '' = [32] @ [hyphen] @ [32]" by (simp add: js_def hyphen_def)
  then have "a @ js '' - '' @ b = a @ [32] @ [hyphen] @ [32] @ b" by simp
  then have c3: "sanitizeFileName_ext (a @ js '' - '' @ b)
     = toLowerCase (collapse (trimStart (strip_ext (replaceDash (trimEnd a)))))
       @ [emDash]
       @ toLowerCase (collapse (trimEnd (strip_ext (replaceDash (trimStart b)))))"
    using sanitize_ext_around_hyphen [OF sp sp, of a b] by simp
  have c1: "sanitizeFileName_ext t = toLowerCase (collapse (trim (strip_ext (replaceDash t))))"
    by (simp add: sanitizeFileName_ext_def)
  have c2: "hyphen \<notin> set (replaceDash t)" by (rule replaceDash_no_hyphen)
  have c4: "emDash \<noteq> hyphen" by simp
  have c5: "(\<forall>x\<in>set w1. isSpace x) \<longrightarrow> (\<forall>x\<in>set w2. isSpace x) \<longrightarrow>
      sanitizeFileName_ext (a @ w1 @ [hyphen] @ w2 @ b)
        = toLowerCase (collapse (trimStart (strip_ext (replaceDash (trimEnd a)))))
          @ [emDash]
          @ toLowerCase (collapse (trimEnd (strip_ext (replaceDash (trimStart b)))))"
    using sanitize_ext_around_hyphen [of w1 w2 a b] by blast
  have c6: "\<exists>X Y. sanitizeFileName_ext (a @ js '' - '' @ b) = X @ [emDash] @ Y \<and>
      filter (\<lambda>c. c \<noteq> hyphen) X
        = map (\<lambda>c. if c = hyphen then emDash else if 65 \<le> c \<and> c \<le> 90 then c + 32 else c)
            (filter (\<lambda>c. isWord c \<or> c = hyphen \<or> c = emDash) a) \<and>
      filter (\<lambda>c. c \<noteq> hyphen) Y
        = map (\<lambda>c. if c = hyphen then emDash else if 65 \<le> c \<and> c \<le> 90 then c + 32 else c)
            (filter (\<lambda>c. isWord c \<or> c = hyphen \<or> c = emDash) b)"
    using c3 left_content [of a] right_content [of b] by blast
  have c7: "\<forall>c\<in>set (sanitizeFileName_ext t).
      (isWord c \<and> \<not> (65 \<le> c \<and> c \<le> 90)) \<or> c = hyphen \<or> c = emDash"
    using sanitize_ext_alphabet [of _ t] by blast
  have c8: "filter (\<lambda>c. c \<noteq> hyphen) (sanitizeFileName_ext t)
     = map (\<lambda>c. if c = hyphen then emDash else if 65 \<le> c \<and> c \<le> 90 then c + 32 else c)
         (filter (\<lambda>c. isWord c \<or> c = hyphen \<or> c = emDash) t)"
    by (rule sanitize_ext_content)
  have c9: "\<not> prefix [hyphen] (sanitizeFileName_ext t) \<and>
   \<not> suffix [hyphen] (sanitizeFileName_ext t) \<and>
   \<not> sublist [hyphen, hyphen] (sanitizeFileName_ext t)"
    by (rule sanitize_ext_separators)
  have c10: "w \<noteq> [] \<longrightarrow> (\<forall>c\<in>set w. isSpace c) \<longrightarrow>
    u \<noteq> [] \<longrightarrow> isWord (last u) \<or> last u = emDash \<longrightarrow>
    v \<noteq> [] \<longrightarrow> isWord (hd v) \<or> hd v = emDash \<longrightarrow>
      sanitizeFileName_ext (u @ w @ v)
        = sanitizeFileName_ext u @ [hyphen] @ sanitizeFileName_ext v"
    using sanitize_ext_gap_general [of w u v] by blast
  have c11: "\<not> isWord x \<longrightarrow> \<not> isSpace x \<longrightarrow> x \<noteq> hyphen \<longrightarrow> x \<noteq> emDash \<longrightarrow>
    (l = [] \<or> (\<not> isSpace (last l) \<and> last l \<noteq> hyphen))
      \<or> (r = [] \<or> (\<not> isSpace (hd r) \<and> hd r \<noteq> hyphen)) \<longrightarrow>
      sanitizeFileName_ext (l @ x # r) = sanitizeFileName_ext (l @ r)"
    using sanitize_ext_junk [of x l r] by blast
  from c1 c2 c3 c4 c5 c6 c7 c8 c9 c10 c11 show ?thesis by (intro conjI) blast+
qed

text \<open>
  The theorem at \<^verbatim>\<open>My Post - Title\<close>, at a hyphen with two spaces before it and none
  after, at \<^verbatim>\<open>C++ - a/b\<close>, whose file name is \<^verbatim>\<open>c\<close>, an em dash and \<^verbatim>\<open>ab\<close>, at
  the white space of \<^verbatim>\<open>My Post\<close> and at the slash of \<^verbatim>\<open>a/b\<close>.
\<close>

theorem sanitizeFileName_ext_dash_witness:
  "sanitizeFileName_ext (js ''My Post - Title'') = js ''my-post'' @ [emDash] @ js ''title'' \<and>
   js ''My Post - Title'' = js ''My Post'' @ js '' - '' @ js ''Title'' \<and>
   toLowerCase (collapse (trimStart (strip_ext (replaceDash (trimEnd (js ''My Post'')))))) = js ''my-post'' \<and>
   toLowerCase (collapse (trimEnd (strip_ext (replaceDash (trimStart (js ''Title'')))))) = js ''title'' \<and>
   sanitizeFileName_ext (js ''a'' @ js ''  '' @ [hyphen] @ [] @ js ''b'') = js ''a'' @ [emDash] @ js ''b'' \<and>
   \<not> (\<exists>x\<in>set (js ''  ''). \<not> isSpace x) \<and>
   sanitizeFileName_ext (js ''C++ - a/b'') = js ''c'' @ [emDash] @ js ''ab'' \<and>
   \<not> (\<exists>c\<in>set (sanitizeFileName_ext (js ''C++ - a/b'')).
        \<not> ((isWord c \<and> \<not> (65 \<le> c \<and> c \<le> 90)) \<or> c = hyphen \<or> c = emDash)) \<and>
   filter (\<lambda>c. c \<noteq> hyphen) (sanitizeFileName_ext (js ''C++ - a/b'')) = js ''c'' @ [emDash] @ js ''ab'' \<and>
   sanitizeFileName_ext (js ''My'' @ js '' '' @ js ''Post'')
     = sanitizeFileName_ext (js ''My'') @ [hyphen] @ sanitizeFileName_ext (js ''Post'') \<and>
   sanitizeFileName_ext (js ''My'') @ [hyphen] @ sanitizeFileName_ext (js ''Post'') = js ''my-post'' \<and>
   js '' '' \<noteq> [] \<and> \<not> (\<exists>c\<in>set (js '' ''). \<not> isSpace c) \<and>
   isWord (last (js ''My'')) \<and> isWord (hd (js ''Post'')) \<and>
   sanitizeFileName_ext (js ''a'' @ slash # js ''b'') = sanitizeFileName_ext (js ''a'' @ js ''b'') \<and>
   sanitizeFileName_ext (js ''a'' @ js ''b'') = js ''ab'' \<and>
   \<not> isWord slash \<and> \<not> isSpace slash \<and> slash \<noteq> hyphen \<and> slash \<noteq> emDash \<and>
   \<not> isSpace (last (js ''a'')) \<and> last (js ''a'') \<noteq> hyphen"
proof -
  have 1: "js ''My Post - Title'' = js ''My Post'' @ js '' - '' @ js ''Title''"
    by (simp add: js_def)
  have 2: "toLowerCase (collapse (trimStart (strip_ext (replaceDash (trimEnd (js ''My Post''))))))
      = js ''my-post''"
    by (simp add: js_eval)
  have 3: "toLowerCase (collapse (trimEnd (strip_ext (replaceDash (trimStart (js ''Title''))))))
      = js ''title''"
    by (simp add: js_eval)
  have 4: "\<forall>x\<in>set (js ''  ''). isSpace x" by (simp add: js_def isSpace_def)
  have 5: "\<forall>x\<in>set []. isSpace x" by simp
  have 6: "toLowerCase (collapse (trimStart (strip_ext (replaceDash (trimEnd (js ''a'')))))) = js ''a''"
    by (simp add: js_eval)
  have 7: "toLowerCase (collapse (trimEnd (strip_ext (replaceDash (trimStart (js ''b'')))))) = js ''b''"
    by (simp add: js_eval)
  have 8: "sanitizeFileName_ext (js ''C++ - a/b'') = js ''c'' @ [emDash] @ js ''ab''"
    by (simp add: js_eval)
  have 9: "js '' '' \<noteq> []" "\<forall>c\<in>set (js '' ''). isSpace c"
    "js ''My'' \<noteq> []" "isWord (last (js ''My''))" "js ''Post'' \<noteq> []" "isWord (hd (js ''Post''))"
    by (simp_all add: js_def isSpace_def isWord_def)
  have 10: "sanitizeFileName_ext (js ''My'') @ [hyphen] @ sanitizeFileName_ext (js ''Post'') = js ''my-post''"
    by (simp add: js_eval)
  have 11: "\<not> isWord slash" "\<not> isSpace slash" "slash \<noteq> hyphen" "slash \<noteq> emDash"
    "\<not> isSpace (last (js ''a''))" "last (js ''a'') \<noteq> hyphen"
    by (simp_all add: js_def slash_def isSpace_def isWord_def hyphen_def emDash_def)
  have 12: "sanitizeFileName_ext (js ''a'' @ js ''b'') = js ''ab''"
    by (simp add: js_eval)
  note i1 = sanitizeFileName_ext_dash [where t = "js ''C++ - a/b''" and a = "js ''My Post''"
      and b = "js ''Title''" and ?w1.0 = "[]" and ?w2.0 = "[]"
      and w = "js '' ''" and u = "js ''My''" and v = "js ''Post''"
      and x = slash and l = "js ''a''" and r = "js ''b''"]
  note i2 = sanitizeFileName_ext_dash [where t = "[]" and a = "js ''a''" and b = "js ''b''"
      and ?w1.0 = "js ''  ''" and ?w2.0 = "[]"
      and w = "[]" and u = "[]" and v = "[]" and x = slash and l = "[]" and r = "[]"]
  have a: "sanitizeFileName_ext (js ''My Post - Title'') = js ''my-post'' @ [emDash] @ js ''title''"
    using i1 unfolding 1 2 3 by blast
  have b: "sanitizeFileName_ext (js ''a'' @ js ''  '' @ [hyphen] @ [] @ js ''b'')
      = js ''a'' @ [emDash] @ js ''b''"
    using i2 4 5 unfolding 6 7 by blast
  have c: "\<not> (\<exists>c\<in>set (sanitizeFileName_ext (js ''C++ - a/b'')).
        \<not> ((isWord c \<and> \<not> (65 \<le> c \<and> c \<le> 90)) \<or> c = hyphen \<or> c = emDash))"
    using i1 by blast
  have "filter (\<lambda>c. c \<noteq> hyphen) (sanitizeFileName_ext (js ''C++ - a/b''))
     = map (\<lambda>c. if c = hyphen then emDash else if 65 \<le> c \<and> c \<le> 90 then c + 32 else c)
         (filter (\<lambda>c. isWord c \<or> c = hyphen \<or> c = emDash) (js ''C++ - a/b''))"
    using i1 by blast
  also have "\<dots> = js ''c'' @ [emDash] @ js ''ab''"
    by (simp add: js_def isWord_def hyphen_def emDash_def)
  finally have d: "filter (\<lambda>c. c \<noteq> hyphen) (sanitizeFileName_ext (js ''C++ - a/b''))
      = js ''c'' @ [emDash] @ js ''ab''" .
  have e: "sanitizeFileName_ext (js ''My'' @ js '' '' @ js ''Post'')
     = sanitizeFileName_ext (js ''My'') @ [hyphen] @ sanitizeFileName_ext (js ''Post'')"
    using i1 9 by blast
  have f: "sanitizeFileName_ext (js ''a'' @ slash # js ''b'') = sanitizeFileName_ext (js ''a'' @ js ''b'')"
    using i1 11 by blast
  from a 1 2 3 b 4 8 c d e 10 9 11 f 12 show ?thesis by (intro conjI) blast+
qed

end
